theory Spec2Isabelle
  imports Complex_Main "HOL-Library.Word" "HOL-Library.Log_Nat"
begin

section \<open>Data model (src/core/types.ts)\<close>

text \<open>
  A JavaScript string is a sequence of UTF-16 code units; \<open>length\<close>, \<open>substring\<close> and
  \<open>trim\<close> all work on code units.
\<close>

type_synonym js_string = "16 word list"

text \<open>\<open>LogFieldValue\<close> is \<open>any\<close> in the source; the JSON values stand for it.\<close>

datatype LogFieldValue =
    JNull
  | JBool bool
  | JNum int
  | JStr js_string
  | JArr "LogFieldValue list"
  | JObj "(js_string \<times> LogFieldValue) list"

type_synonym LogFields = "(js_string \<times> LogFieldValue) list"

record LogEntry =
  level :: js_string
  message :: js_string
  timestamp :: js_string
  entry_fields :: LogFields

text \<open>
  A value of type \<open>number\<close> as \<open>JSON.parse\<close> delivers it: a finite double, which is a
  rational and need not be an integer, or an infinity when the literal is too large
  (\<open>1e999\<close>). \<open>NaN\<close> belongs to the type as well.
\<close>

datatype js_number = Finite rat | PlusInfinity | MinusInfinity | NaN

text \<open>
  The response is the parsed body, read without any check: the \<open>index\<close> of a rejected log
  is whatever number the server sent.
\<close>

record RejectedLog =
  index :: js_number
  rejmessage :: js_string

record LogBullResponse =
  accepted :: int
  rejected :: int
  respmessage :: "js_string option"
  errors :: "RejectedLog list option"

record Config =
  projectId :: js_string
  host :: js_string
  apiKey :: "js_string option"

section \<open>The batch sender (class \<open>Sender\<close>, src/core/sender.ts)\<close>

definition BATCH_SIZE :: nat where
  "BATCH_SIZE = 1000"

definition QUEUE_CAPACITY :: nat where
  "QUEUE_CAPACITY = 10000"

text \<open>
  What can be thrown inside \<open>sendHTTPRequest\<close>: the rejection of \<open>makeRequest\<close> (network
  failure, abort after the timeout) and a \<open>TypeError\<close> raised by a property read on
  \<open>null\<close> or \<open>undefined\<close>.
\<close>

datatype js_error = RequestError js_string | TypeError

text \<open>
  Every \<open>console.error\<close> line of the sender is one diagnostic; the constructor keeps the
  values the line interpolates.
\<close>

datatype diagnostic =
    QueueFull
  | ServerStatus int js_string
  | RequestFailed js_error
  | RejectedCount int
  | RejectedDetails
  | RejectedEntry js_number js_string
  | RejectedLevel js_string
  | RejectedMessage js_string
  | RejectedTimestamp js_string
  | RejectedFields LogFields

text \<open>
  The fields of the class, followed by two observation fields: \<open>console\<close> collects the
  diagnostics written so far, \<open>dispatched\<close> the batches handed to \<open>sendHTTPRequest\<close>, both
  oldest first.
\<close>

record Sender =
  config :: Config
  logQueue :: "LogEntry list"
  intervalId :: "nat option"
  stopped :: bool
  inFlightRequests :: int
  console :: "diagnostic list"
  dispatched :: "LogEntry list list"

definition console_error :: "diagnostic \<Rightarrow> Sender \<Rightarrow> Sender" where
  "console_error d s = s\<lparr>console := console s @ [d]\<rparr>"

text \<open>The constructor: an empty queue, running, with the interval timer armed.\<close>

definition new_Sender :: "Config \<Rightarrow> Sender" where
  "new_Sender c =
     \<lparr>config = c, logQueue = [], intervalId = Some 0, stopped = False,
      inFlightRequests = 0, console = [], dispatched = []\<rparr>"

definition addLog :: "LogEntry \<Rightarrow> Sender \<Rightarrow> Sender" where
  "addLog entry s =
     (if stopped s then s
      else if length (logQueue s) \<ge> QUEUE_CAPACITY then console_error QueueFull s
      else s\<lparr>logQueue := logQueue s @ [entry]\<rparr>)"

text \<open>
  \<open>sendHTTPRequest\<close> is asynchronous. Its caller runs it up to the first \<open>await\<close>: the
  counter is incremented and the request for the batch is issued. The URL and the headers
  of the request depend on \<open>config\<close> only and its body is the batch, so the batch stands
  for the request.
\<close>

definition sendHTTPRequest_begin :: "LogEntry list \<Rightarrow> Sender \<Rightarrow> Sender" where
  "sendHTTPRequest_begin logs s =
     s\<lparr>inFlightRequests := inFlightRequests s + 1, dispatched := dispatched s @ [logs]\<rparr>"

text \<open>\<open>logQueue.splice(0, BATCH_SIZE)\<close> returns the first entries and keeps the rest.\<close>

definition sendBatch :: "Sender \<Rightarrow> Sender" where
  "sendBatch s =
     (if length (logQueue s) = 0 then s
      else
        let logsToSend = take BATCH_SIZE (logQueue s);
            s' = s\<lparr>logQueue := drop BATCH_SIZE (logQueue s)\<rparr>
        in sendHTTPRequest_begin logsToSend s')"

definition flush :: "Sender \<Rightarrow> Sender" where
  "flush s = sendBatch s"

text \<open>
  \<open>shutdown\<close> up to its polling loop. The loop that follows only reads
  \<open>inFlightRequests\<close> and the clock and writes no field.
\<close>

definition shutdown :: "Sender \<Rightarrow> Sender" where
  "shutdown s =
     (if stopped s then s
      else sendBatch (s\<lparr>stopped := True, intervalId := None\<rparr>))"

subsection \<open>Settling a request\<close>

text \<open>How a block of statements completes: it runs to its end, returns early or throws.\<close>

datatype completion = Normal | Return | Throw js_error

text \<open>
  The result of \<open>await this.makeRequest(...)\<close> is supplied by the network: the promise
  rejects, or resolves to a status and a body.
\<close>

datatype request_outcome = Rejects js_error | Resolves int js_string

text \<open>
  \<open>JSON.parse\<close> throws on a malformed body, and otherwise yields a value that the source
  reads as a \<open>LogBullResponse\<close> without checking it; the value \<open>null\<close> is kept apart, since
  reading a property of it throws.
\<close>

datatype parsed = Unparseable | ParsedNull | Parsed LogBullResponse

text \<open>
  The comparisons \<open>x >= 0\<close> and \<open>x < xs.length\<close> of a number; every comparison with
  \<open>NaN\<close> is false.
\<close>

definition ge_zero :: "js_number \<Rightarrow> bool" where
  "ge_zero x =
     (case x of Finite q \<Rightarrow> 0 \<le> q | PlusInfinity \<Rightarrow> True | MinusInfinity \<Rightarrow> False | NaN \<Rightarrow> False)"

definition less_than_length :: "js_number \<Rightarrow> nat \<Rightarrow> bool" where
  "less_than_length x n =
     (case x of Finite q \<Rightarrow> q < of_nat n | PlusInfinity \<Rightarrow> False | MinusInfinity \<Rightarrow> True
      | NaN \<Rightarrow> False)"

text \<open>
  \<open>xs[i]\<close> reads the property whose key is the string of \<open>i\<close>: an element of the array
  when \<open>i\<close> is an integer inside it, and \<open>undefined\<close> (here \<open>None\<close>) for every other number,
  a fraction between two positions included.
\<close>

definition array_get :: "'a list \<Rightarrow> js_number \<Rightarrow> 'a option" where
  "array_get xs i =
     (case i of
        Finite q \<Rightarrow>
          if of_int \<lfloor>q\<rfloor> = q \<and> 0 \<le> q \<and> q < of_nat (length xs) then Some (xs ! nat \<lfloor>q\<rfloor>)
          else None
      | PlusInfinity \<Rightarrow> None
      | MinusInfinity \<Rightarrow> None
      | NaN \<Rightarrow> None)"

text \<open>The lines printed for one rejected entry.\<close>

definition rejected_lines :: "RejectedLog \<Rightarrow> LogEntry \<Rightarrow> diagnostic list" where
  "rejected_lines error logEntry =
     [RejectedEntry (index error) (rejmessage error), RejectedLevel (level logEntry),
      RejectedMessage (message logEntry), RejectedTimestamp (timestamp logEntry)]
     @ (if length (entry_fields logEntry) > 0 then [RejectedFields (entry_fields logEntry)]
        else [])"

text \<open>
  The \<open>for ... of\<close> loop of \<open>handleRejectedLogs\<close>. The first line of an entry is printed
  before \<open>log.level\<close> is read, so it is on the console even if that read throws.
\<close>

fun rejected_loop :: "LogEntry list \<Rightarrow> RejectedLog list \<Rightarrow> Sender \<Rightarrow> completion \<times> Sender" where
  "rejected_loop sentLogs [] s = (Normal, s)"
| "rejected_loop sentLogs (error # rest) s =
     (if ge_zero (index error) \<and> less_than_length (index error) (length sentLogs) then
        (case array_get sentLogs (index error) of
           None \<Rightarrow>
             (Throw TypeError,
              console_error (RejectedEntry (index error) (rejmessage error)) s)
         | Some logEntry \<Rightarrow>
             rejected_loop sentLogs rest
               (s\<lparr>console := console s @ rejected_lines error logEntry\<rparr>))
      else rejected_loop sentLogs rest s)"

definition handleRejectedLogs ::
  "LogBullResponse \<Rightarrow> LogEntry list \<Rightarrow> Sender \<Rightarrow> completion \<times> Sender" where
  "handleRejectedLogs response sentLogs s =
     (let s1 = console_error (RejectedCount (rejected response)) s in
      case errors response of
        None \<Rightarrow> (Normal, s1)
      | Some errs \<Rightarrow>
          if length errs > 0 then rejected_loop sentLogs errs (console_error RejectedDetails s1)
          else (Normal, s1))"

text \<open>The \<open>try\<close> block of \<open>sendHTTPRequest\<close> from the \<open>await\<close> on.\<close>

definition try_block ::
  "(js_string \<Rightarrow> parsed) \<Rightarrow> LogEntry list \<Rightarrow> request_outcome \<Rightarrow> Sender \<Rightarrow> completion \<times> Sender" where
  "try_block JSON_parse logs outcome s =
     (case outcome of
        Rejects err \<Rightarrow> (Throw err, s)
      | Resolves status body \<Rightarrow>
          if status \<noteq> 200 \<and> status \<noteq> 202 then (Return, console_error (ServerStatus status body) s)
          else
            (case JSON_parse body of
               Unparseable \<Rightarrow> (Return, s)
             | ParsedNull \<Rightarrow> (Throw TypeError, s)
             | Parsed responseData \<Rightarrow>
                 if rejected responseData > 0 then handleRejectedLogs responseData logs s
                 else (Normal, s)))"

text \<open>The \<open>catch\<close> clause handles every thrown value and completes normally.\<close>

definition catch_block :: "completion \<times> Sender \<Rightarrow> completion \<times> Sender" where
  "catch_block cs =
     (case fst cs of
        Throw err \<Rightarrow> (Normal, console_error (RequestFailed err) (snd cs))
      | _ \<Rightarrow> cs)"

text \<open>The \<open>finally\<close> clause runs on every completion and keeps it.\<close>

definition finally_block :: "completion \<times> Sender \<Rightarrow> completion \<times> Sender" where
  "finally_block cs = (fst cs, (snd cs)\<lparr>inFlightRequests := inFlightRequests (snd cs) - 1\<rparr>)"

definition sendHTTPRequest_settle ::
  "(js_string \<Rightarrow> parsed) \<Rightarrow> LogEntry list \<Rightarrow> request_outcome \<Rightarrow> Sender \<Rightarrow> completion \<times> Sender" where
  "sendHTTPRequest_settle JSON_parse logs outcome s =
     finally_block (catch_block (try_block JSON_parse logs outcome s))"

text \<open>The whole of \<open>sendHTTPRequest\<close>, with nothing else running in between.\<close>

definition sendHTTPRequest ::
  "(js_string \<Rightarrow> parsed) \<Rightarrow> LogEntry list \<Rightarrow> request_outcome \<Rightarrow> Sender \<Rightarrow> completion \<times> Sender" where
  "sendHTTPRequest JSON_parse logs outcome s =
     sendHTTPRequest_settle JSON_parse logs outcome (sendHTTPRequest_begin logs s)"

subsection \<open>The sender as a state machine\<close>

text \<open>
  What can happen to a sender: the three public calls, a tick of the interval timer and
  the settling of a request that is in flight. A cleared timer does not tick.
\<close>

datatype event =
    AddLog LogEntry
  | Flush
  | Shutdown
  | Tick
  | Settle "LogEntry list" request_outcome

fun step :: "(js_string \<Rightarrow> parsed) \<Rightarrow> Sender \<Rightarrow> event \<Rightarrow> Sender" where
  "step JSON_parse s (AddLog entry) = addLog entry s"
| "step JSON_parse s Flush = flush s"
| "step JSON_parse s Shutdown = shutdown s"
| "step JSON_parse s Tick = (if intervalId s = None then s else sendBatch s)"
| "step JSON_parse s (Settle logs outcome) = snd (sendHTTPRequest_settle JSON_parse logs outcome s)"

definition run :: "(js_string \<Rightarrow> parsed) \<Rightarrow> event list \<Rightarrow> Sender \<Rightarrow> Sender" where
  "run JSON_parse evs s = foldl (step JSON_parse) s evs"

fun is_enqueue_or_shutdown :: "event \<Rightarrow> bool" where
  "is_enqueue_or_shutdown (AddLog entry) = True"
| "is_enqueue_or_shutdown Shutdown = True"
| "is_enqueue_or_shutdown ev = False"

section \<open>Message formatting (src/internal/formatting.ts)\<close>

definition MAX_MESSAGE_LENGTH :: nat where
  "MAX_MESSAGE_LENGTH = 10000"

text \<open>
  The code units \<open>String.prototype.trim\<close> removes: the white space and line terminator
  code points of ECMAScript, all of which are single code units.
\<close>

definition is_js_whitespace :: "16 word \<Rightarrow> bool" where
  "is_js_whitespace c \<longleftrightarrow>
     c \<in> set [0x0009, 0x000A, 0x000B, 0x000C, 0x000D, 0x0020, 0x00A0, 0x1680,
              0x2000, 0x2001, 0x2002, 0x2003, 0x2004, 0x2005, 0x2006, 0x2007,
              0x2008, 0x2009, 0x200A, 0x2028, 0x2029, 0x202F, 0x205F, 0x3000, 0xFEFF]"

definition trim :: "js_string \<Rightarrow> js_string" where
  "trim s = rev (dropWhile is_js_whitespace (rev (dropWhile is_js_whitespace s)))"

text \<open>\<open>s.substring(0, n)\<close> for \<open>n \<ge> 0\<close>.\<close>

definition substring0 :: "js_string \<Rightarrow> nat \<Rightarrow> js_string" where
  "substring0 s n = take n s"

definition ellipsis :: js_string where
  "ellipsis = [0x002E, 0x002E, 0x002E]"

definition formatMessage :: "js_string \<Rightarrow> js_string" where
  "formatMessage msg =
     (let trimmed = trim msg in
      if length trimmed > MAX_MESSAGE_LENGTH
      then substring0 trimmed (MAX_MESSAGE_LENGTH - 3) @ ellipsis
      else trimmed)"

section \<open>JavaScript numbers\<close>

text \<open>
  A \<open>number\<close> is an IEEE 754 double: a sign, a significand of 53 binary digits and an
  exponent. The result of an arithmetic operation is the exact result rounded to the
  nearest double, a tie going to the even significand. The numbers of this program lie
  far inside the normal range (magnitudes from \<open>2\<^sup>-\<^sup>1\<^sup>0\<^sup>2\<^sup>2\<close> to \<open>2\<^sup>1\<^sup>0\<^sup>2\<^sup>3\<close>), so the
  exponent is not bounded here.
\<close>

definition pow2 :: "int \<Rightarrow> rat" where
  "pow2 k = (if k \<ge> 0 then 2 ^ nat k else 1 / 2 ^ nat (- k))"

text \<open>The exponent of a positive rational \<open>q\<close>: the \<open>e\<close> with \<open>2\<^sup>e \<le> q < 2\<^sup>e\<^sup>+\<^sup>1\<close>.\<close>

definition exponent :: "rat \<Rightarrow> int" where
  "exponent q = (if q \<ge> 1 then bitlen \<lfloor>q\<rfloor> - 1 else - bitlen (\<lceil>1 / q\<rceil> - 1))"

definition round_half_even :: "rat \<Rightarrow> int" where
  "round_half_even r =
     (let f = \<lfloor>r\<rfloor>; d = r - of_int f in
      if d < 1 / 2 then f else if d > 1 / 2 then f + 1 else if even f then f else f + 1)"

text \<open>The double nearest to a rational: a multiple of the unit in the last place.\<close>

definition to_double :: "rat \<Rightarrow> rat" where
  "to_double q =
     (if q = 0 then 0
      else let u = pow2 (exponent \<bar>q\<bar> - 52)
           in sgn q * of_int (round_half_even (\<bar>q\<bar> / u)) * u)"

text \<open>
  \<open>Number(b)\<close> for a BigInt \<open>b\<close>, and the sum and the product of two numbers that hold
  integers. The nearest double to an integer is an integer.
\<close>

definition js_Number :: "int \<Rightarrow> int" where
  "js_Number v = \<lfloor>to_double (of_int v)\<rfloor>"

definition js_add :: "int \<Rightarrow> int \<Rightarrow> int" where
  "js_add a b = js_Number (a + b)"

definition js_mul :: "int \<Rightarrow> int \<Rightarrow> int" where
  "js_mul a b = js_Number (a * b)"

text \<open>\<open>a / b\<close> for numbers that hold integers, \<open>b\<close> not zero.\<close>

definition js_div :: "int \<Rightarrow> int \<Rightarrow> rat" where
  "js_div a b = to_double (of_int a / of_int b)"

text \<open>\<open>a % b\<close> is exact and has the sign of the dividend.\<close>

definition js_rem :: "int \<Rightarrow> int \<Rightarrow> int" where
  "js_rem a b = sgn a * (\<bar>a\<bar> mod \<bar>b\<bar>)"

definition Math_floor :: "rat \<Rightarrow> int" where
  "Math_floor x = \<lfloor>x\<rfloor>"

text \<open>An integer that a \<open>number\<close> can hold.\<close>

definition is_double :: "int \<Rightarrow> bool" where
  "is_double v \<longleftrightarrow> js_Number v = v"

section \<open>The Date object\<close>

text \<open>
  The time value of a \<open>Date\<close> is a number of milliseconds since the epoch, or \<open>NaN\<close>
  (here \<open>None\<close>) when the argument of the constructor is beyond 8.64e15 in magnitude.
  The UTC fields are those of ECMAScript (Day, DayFromYear, YearFromTime, MonthFromTime,
  DateFromTime, HourFromTime, MinFromTime, SecFromTime).
\<close>

type_synonym Date = "int option"

definition new_Date :: "int \<Rightarrow> Date" where
  "new_Date v = (if \<bar>v\<bar> > 8640000000000000 then None else Some v)"

definition msPerDay :: int where
  "msPerDay = 86400000"

definition Day :: "int \<Rightarrow> int" where
  "Day t = t div msPerDay"

definition DaysInYear :: "int \<Rightarrow> int" where
  "DaysInYear y =
     (if y mod 4 \<noteq> 0 then 365
      else if y mod 100 \<noteq> 0 then 366
      else if y mod 400 \<noteq> 0 then 365
      else 366)"

definition DayFromYear :: "int \<Rightarrow> int" where
  "DayFromYear y =
     365 * (y - 1970) + (y - 1969) div 4 - (y - 1901) div 100 + (y - 1601) div 400"

text \<open>
  \<open>YearFromTime t\<close> is the largest \<open>y\<close> whose first day is not after the day of \<open>t\<close>: the
  search goes down from a year that is late enough.
\<close>

function year_search :: "int \<Rightarrow> int \<Rightarrow> int" where
  "year_search y d = (if DayFromYear y \<le> d then y else year_search (y - 1) d)"
  by pat_completeness auto
termination
proof (relation "measure (\<lambda>(y, d). nat (y - (1969 + min 0 d)))")
  show "wf (measure (\<lambda>(y, d). nat (y - (1969 + min 0 d))))"
    by simp
next
  fix y d :: int
  assume "\<not> DayFromYear y \<le> d"
  moreover have "y \<le> 1970 \<Longrightarrow> DayFromYear y \<le> 365 * (y - 1970) + 1"
    unfolding DayFromYear_def by linarith
  ultimately have "1969 + min 0 d < y"
    by (cases "y \<le> 1970") (auto simp: min_def)
  then show "((y - 1, d), (y, d)) \<in> measure (\<lambda>(y, d). nat (y - (1969 + min 0 d)))"
    by simp
qed

declare year_search.simps [simp del]

definition YearFromTime :: "int \<Rightarrow> int" where
  "YearFromTime t = year_search (1970 + max 0 (Day t div 365 + 1)) (Day t)"

definition InLeapYear :: "int \<Rightarrow> int" where
  "InLeapYear t = (if DaysInYear (YearFromTime t) = 366 then 1 else 0)"

definition DayWithinYear :: "int \<Rightarrow> int" where
  "DayWithinYear t = Day t - DayFromYear (YearFromTime t)"

definition MonthFromTime :: "int \<Rightarrow> int" where
  "MonthFromTime t =
     (let d = DayWithinYear t; l = InLeapYear t in
      if d < 31 then 0
      else if d < 59 + l then 1
      else if d < 90 + l then 2
      else if d < 120 + l then 3
      else if d < 151 + l then 4
      else if d < 181 + l then 5
      else if d < 212 + l then 6
      else if d < 243 + l then 7
      else if d < 273 + l then 8
      else if d < 304 + l then 9
      else if d < 334 + l then 10
      else 11)"

definition DateFromTime :: "int \<Rightarrow> int" where
  "DateFromTime t =
     (let d = DayWithinYear t; l = InLeapYear t; m = MonthFromTime t in
      if m = 0 then d + 1
      else if m = 1 then d - 30
      else if m = 2 then d - 58 - l
      else if m = 3 then d - 89 - l
      else if m = 4 then d - 119 - l
      else if m = 5 then d - 150 - l
      else if m = 6 then d - 180 - l
      else if m = 7 then d - 211 - l
      else if m = 8 then d - 242 - l
      else if m = 9 then d - 272 - l
      else if m = 10 then d - 303 - l
      else d - 333 - l)"

definition HourFromTime :: "int \<Rightarrow> int" where
  "HourFromTime t = (t div 3600000) mod 24"

definition MinFromTime :: "int \<Rightarrow> int" where
  "MinFromTime t = (t div 60000) mod 60"

definition SecFromTime :: "int \<Rightarrow> int" where
  "SecFromTime t = (t div 1000) mod 60"

definition getUTCFullYear :: "Date \<Rightarrow> int option" where
  "getUTCFullYear date = map_option YearFromTime date"

definition getUTCMonth :: "Date \<Rightarrow> int option" where
  "getUTCMonth date = map_option MonthFromTime date"

definition getUTCDate :: "Date \<Rightarrow> int option" where
  "getUTCDate date = map_option DateFromTime date"

definition getUTCHours :: "Date \<Rightarrow> int option" where
  "getUTCHours date = map_option HourFromTime date"

definition getUTCMinutes :: "Date \<Rightarrow> int option" where
  "getUTCMinutes date = map_option MinFromTime date"

definition getUTCSeconds :: "Date \<Rightarrow> int option" where
  "getUTCSeconds date = map_option SecFromTime date"

section \<open>Strings of numbers\<close>

definition digit :: "int \<Rightarrow> char" where
  "digit n = ''0123456789'' ! nat n"

function decimal :: "int \<Rightarrow> string" where
  "decimal n = (if n < 10 then [digit n] else decimal (n div 10) @ [digit (n mod 10)])"
  by pat_completeness auto
termination
  by (relation "measure nat") auto

declare decimal.simps [simp del]

text \<open>
  \<open>String(x)\<close> for a number that holds an integer below \<open>10\<^sup>2\<^sup>1\<close> in magnitude, or is
  \<open>NaN\<close>.
\<close>

definition js_String :: "int option \<Rightarrow> string" where
  "js_String x =
     (case x of
        None \<Rightarrow> ''NaN''
      | Some n \<Rightarrow> if n < 0 then CHR ''-'' # decimal (- n) else decimal n)"

definition padStart :: "nat \<Rightarrow> char \<Rightarrow> string \<Rightarrow> string" where
  "padStart n c s = replicate (n - length s) c @ s"

section \<open>The timestamp generator (src/core/timestamp.ts)\<close>

definition formatTimestamp :: "int \<Rightarrow> string" where
  "formatTimestamp timestampNs =
     (let seconds = Math_floor (js_div timestampNs 1000000000);
          nanos = js_rem timestampNs 1000000000;
          date = new_Date (js_mul seconds 1000);
          year = js_String (getUTCFullYear date);
          month = padStart 2 CHR ''0'' (js_String (map_option (\<lambda>m. m + 1) (getUTCMonth date)));
          day = padStart 2 CHR ''0'' (js_String (getUTCDate date));
          hours = padStart 2 CHR ''0'' (js_String (getUTCHours date));
          minutes = padStart 2 CHR ''0'' (js_String (getUTCMinutes date));
          secs = padStart 2 CHR ''0'' (js_String (getUTCSeconds date));
          nanosStr = padStart 9 CHR ''0'' (js_String (Some nanos))
      in year @ ''-'' @ month @ ''-'' @ day @ ''T'' @ hours @ '':'' @ minutes @ '':'' @ secs
         @ ''.'' @ nanosStr @ ''Z'')"

text \<open>
  The repository holds two revisions of this file. Both end in the same comparison with
  \<open>lastTimestampNs\<close> and share \<open>formatTimestamp\<close>; they differ in the candidate. The
  revision with a wall-clock baseline comes first.

  Its module variables are the state. What a call reads from the clocks is its argument:
  \<open>Date.now()\<close> and the first \<open>process.hrtime.bigint()\<close> are read only while no baseline
  is set, the second \<open>process.hrtime.bigint()\<close> on every call.
\<close>

record timestamp_state =
  lastTimestampNs :: int
  baselineWallClockMs :: int
  baselineHrtimeNs :: "int option"

record clock_readings =
  Date_now :: int
  hrtime_baseline :: int
  hrtime_current :: int

definition initial_state :: timestamp_state where
  "initial_state = \<lparr>lastTimestampNs = 0, baselineWallClockMs = 0, baselineHrtimeNs = None\<rparr>"

text \<open>The block \<open>if (baselineHrtimeNs === null) { ... }\<close>.\<close>

definition capture_baseline :: "clock_readings \<Rightarrow> timestamp_state \<Rightarrow> timestamp_state" where
  "capture_baseline clk st =
     (if baselineHrtimeNs st = None
      then st\<lparr>baselineWallClockMs := Date_now clk, baselineHrtimeNs := Some (hrtime_baseline clk)\<rparr>
      else st)"

text \<open>
  The candidate \<open>currentNsNumber\<close>: the subtraction is one of BigInts and exact, the
  conversion, the product and the sum are those of numbers.
\<close>

definition currentNsNumber :: "int \<Rightarrow> int \<Rightarrow> int \<Rightarrow> int" where
  "currentNsNumber wallClockMs baseHrtimeNs currentHrtimeNs =
     (let elapsedNs = js_Number (currentHrtimeNs - baseHrtimeNs);
          baselineNs = js_mul wallClockMs 1000000
      in js_add baselineNs elapsedNs)"

text \<open>
  The state after a call. After \<open>capture_baseline\<close> a baseline is always set, so the first
  case below is never taken.
\<close>

definition next_state :: "clock_readings \<Rightarrow> timestamp_state \<Rightarrow> timestamp_state" where
  "next_state clk st =
     (let st1 = capture_baseline clk st in
      case baselineHrtimeNs st1 of
        None \<Rightarrow> st1
      | Some baseHrtimeNs \<Rightarrow>
          let candidate =
                currentNsNumber (baselineWallClockMs st1) baseHrtimeNs (hrtime_current clk)
          in if candidate \<le> lastTimestampNs st1
             then st1\<lparr>lastTimestampNs := js_add (lastTimestampNs st1) 1\<rparr>
             else st1\<lparr>lastTimestampNs := candidate\<rparr>)"

definition generateUniqueTimestamp :: "clock_readings \<Rightarrow> timestamp_state \<Rightarrow> string \<times> timestamp_state" where
  "generateUniqueTimestamp clk st =
     (let st' = next_state clk st in (formatTimestamp (lastTimestampNs st'), st'))"

text \<open>
  The revision without a baseline: the candidate is the reading of
  \<open>process.hrtime.bigint()\<close> itself, converted to a number, and \<open>lastTimestampNs\<close> is the
  whole state.
\<close>

definition next_hrtime :: "int \<Rightarrow> int \<Rightarrow> int" where
  "next_hrtime currentNs lastNs =
     (let candidate = js_Number currentNs
      in if candidate \<le> lastNs then js_add lastNs 1 else candidate)"

definition generateUniqueTimestamp_hrtime :: "int \<Rightarrow> int \<Rightarrow> string \<times> int" where
  "generateUniqueTimestamp_hrtime currentNs lastNs =
     (let lastNs' = next_hrtime currentNs lastNs in (formatTimestamp lastNs', lastNs'))"

text \<open>The values emitted by successive calls, oldest first.\<close>

fun emitted :: "clock_readings list \<Rightarrow> timestamp_state \<Rightarrow> int list" where
  "emitted [] st = []"
| "emitted (clk # clks) st =
     lastTimestampNs (next_state clk st) # emitted clks (next_state clk st)"

fun emitted_hrtime :: "int list \<Rightarrow> int \<Rightarrow> int list" where
  "emitted_hrtime [] lastNs = []"
| "emitted_hrtime (currentNs # rest) lastNs =
     next_hrtime currentNs lastNs # emitted_hrtime rest (next_hrtime currentNs lastNs)"

section \<open>Auxiliary definitions for the statements\<close>

text \<open>Calling \<open>addLog\<close> once for each entry of a list, in order.\<close>

definition enqueue_all :: "LogEntry list \<Rightarrow> Sender \<Rightarrow> Sender" where
  "enqueue_all entries s = foldl (\<lambda>s' entry. addLog entry s') s entries"

text \<open>
  The words of the statement about rejected logs: the error records of a response, an
  index that is an integer, an index with \<open>0 \<le> index < batch length\<close>, and the position
  in the batch that an integer index names.
\<close>

definition reported_errors :: "LogBullResponse \<Rightarrow> RejectedLog list" where
  "reported_errors response = (case errors response of None \<Rightarrow> [] | Some errs \<Rightarrow> errs)"

definition is_integer :: "js_number \<Rightarrow> bool" where
  "is_integer x =
     (case x of Finite q \<Rightarrow> of_int \<lfloor>q\<rfloor> = q | PlusInfinity \<Rightarrow> False | MinusInfinity \<Rightarrow> False
      | NaN \<Rightarrow> False)"

definition index_in_range :: "LogEntry list \<Rightarrow> RejectedLog \<Rightarrow> bool" where
  "index_in_range sentLogs error =
     (case index error of
        Finite q \<Rightarrow> 0 \<le> q \<and> q < of_nat (length sentLogs)
      | PlusInfinity \<Rightarrow> False
      | MinusInfinity \<Rightarrow> False
      | NaN \<Rightarrow> False)"

definition position :: "js_number \<Rightarrow> nat" where
  "position x =
     (case x of Finite q \<Rightarrow> nat \<lfloor>q\<rfloor> | PlusInfinity \<Rightarrow> 0 | MinusInfinity \<Rightarrow> 0 | NaN \<Rightarrow> 0)"

definition reported_lines :: "LogEntry list \<Rightarrow> RejectedLog list \<Rightarrow> diagnostic list" where
  "reported_lines sentLogs errs =
     concat (map (\<lambda>error. rejected_lines error (sentLogs ! position (index error)))
                 (filter (index_in_range sentLogs) errs))"

text \<open>A batch entry with every part filled in.\<close>

definition sample_log :: LogEntry where
  "sample_log = \<lparr>level = [0x45], message = [0x6D], timestamp = [0x74],
                  entry_fields = [([0x6B], JNum 1)]\<rparr>"

text \<open>Concrete inputs: the entry whose message is the code unit \<open>n\<close>, and a configuration.\<close>

definition sample_entry :: "nat \<Rightarrow> LogEntry" where
  "sample_entry n = \<lparr>level = [], message = [of_nat n], timestamp = [], entry_fields = []\<rparr>"

definition sample_config :: Config where
  "sample_config = \<lparr>projectId = [], host = [], apiKey = None\<rparr>"

text \<open>The decimal digits of \<open>v\<close> in exactly \<open>k\<close> places, zeros in front.\<close>

fun fixed_digits :: "nat \<Rightarrow> int \<Rightarrow> string" where
  "fixed_digits 0 v = []"
| "fixed_digits (Suc k) v = fixed_digits k (v div 10) @ [digit (v mod 10)]"

text \<open>
  The shape \<open>YYYY-MM-DDTHH:MM:SS.NNNNNNNNNZ\<close>: four digits of the year, two of each of
  the month, the day, the hour, the minute and the second, nine of the nanoseconds.
\<close>

definition rfc3339_nano :: "int \<Rightarrow> int \<Rightarrow> int \<Rightarrow> int \<Rightarrow> int \<Rightarrow> int \<Rightarrow> int \<Rightarrow> string" where
  "rfc3339_nano Y M D h m s n =
     fixed_digits 4 Y @ ''-'' @ fixed_digits 2 M @ ''-'' @ fixed_digits 2 D @ ''T''
     @ fixed_digits 2 h @ '':'' @ fixed_digits 2 m @ '':'' @ fixed_digits 2 s
     @ ''.'' @ fixed_digits 9 n @ ''Z''"

text \<open>The number of days of the year \<open>y\<close> before its month \<open>M\<close> (January is 1).\<close>

definition days_before_month :: "int \<Rightarrow> int \<Rightarrow> int" where
  "days_before_month y M =
     (let l = (if DaysInYear y = 366 then 1 else 0) in
      if M = 1 then 0 else if M = 2 then 31 else if M = 3 then 59 + l
      else if M = 4 then 90 + l else if M = 5 then 120 + l else if M = 6 then 151 + l
      else if M = 7 then 181 + l else if M = 8 then 212 + l else if M = 9 then 243 + l
      else if M = 10 then 273 + l else if M = 11 then 304 + l else 334 + l)"

section \<open>The sender: proofs\<close>

lemma console_error_fields [simp]:
  "logQueue (console_error d s) = logQueue s"
  "stopped (console_error d s) = stopped s"
  "intervalId (console_error d s) = intervalId s"
  "inFlightRequests (console_error d s) = inFlightRequests s"
  "dispatched (console_error d s) = dispatched s"
  "config (console_error d s) = config s"
  "console (console_error d s) = console s @ [d]"
  by (simp_all add: console_error_def)

lemma addLog_stopped_id: "stopped s \<Longrightarrow> addLog entry s = s"
  by (simp add: addLog_def)

lemma addLog_keeps_stopped [simp]: "stopped (addLog entry s) = stopped s"
  by (simp add: addLog_def)

lemma addLog_queue:
  "logQueue (addLog entry s) =
     (if stopped s \<or> QUEUE_CAPACITY \<le> length (logQueue s) then logQueue s
      else logQueue s @ [entry])"
  by (simp add: addLog_def)

lemma enqueue_all_queue:
  "\<not> stopped s \<Longrightarrow> length (logQueue s) \<le> QUEUE_CAPACITY \<Longrightarrow>
   logQueue (enqueue_all entries s) = take QUEUE_CAPACITY (logQueue s @ entries)"
proof (induction entries arbitrary: s)
  case Nil
  then show ?case by (simp add: enqueue_all_def)
next
  case (Cons e es)
  have step: "enqueue_all (e # es) s = enqueue_all es (addLog e s)"
    by (simp add: enqueue_all_def)
  show ?case
  proof (cases "QUEUE_CAPACITY \<le> length (logQueue s)")
    case True
    with Cons.prems have len: "length (logQueue s) = QUEUE_CAPACITY" by simp
    have "logQueue (enqueue_all es (addLog e s)) = take QUEUE_CAPACITY (logQueue (addLog e s) @ es)"
      using Cons.prems True by (intro Cons.IH) (simp_all add: addLog_queue)
    then show ?thesis using len True Cons.prems by (simp add: step addLog_queue)
  next
    case False
    have "logQueue (enqueue_all es (addLog e s)) = take QUEUE_CAPACITY (logQueue (addLog e s) @ es)"
      using Cons.prems False by (intro Cons.IH) (simp_all add: addLog_queue)
    then show ?thesis using False Cons.prems by (simp add: step addLog_queue)
  qed
qed

lemma sendBatch_queue: "logQueue (sendBatch s) = drop BATCH_SIZE (logQueue s)"
  by (simp add: sendBatch_def sendHTTPRequest_begin_def Let_def)

lemma sendBatch_dispatched:
  "dispatched (sendBatch s) =
     (if logQueue s = [] then dispatched s else dispatched s @ [take BATCH_SIZE (logQueue s)])"
  by (simp add: sendBatch_def sendHTTPRequest_begin_def Let_def)

lemma sendBatch_conserves:
  "concat (dispatched (sendBatch s)) @ logQueue (sendBatch s) = concat (dispatched s) @ logQueue s"
  by (simp add: sendBatch_queue sendBatch_dispatched)

lemma sendBatch_pow_conserves:
  "concat (dispatched ((sendBatch ^^ n) s)) @ logQueue ((sendBatch ^^ n) s)
     = concat (dispatched s) @ logQueue s"
  by (induction n) (simp_all add: sendBatch_conserves)

lemma sendBatch_pow_queue:
  "logQueue ((sendBatch ^^ n) s) = drop (n * BATCH_SIZE) (logQueue s)"
  by (induction n) (simp_all add: sendBatch_queue add.commute)

text \<open>
  Claim C3. \<open>addLog\<close> never makes the queue longer than \<open>QUEUE_CAPACITY\<close>: the length
  after the call is at most the larger of the length before it and the capacity. On a
  stopped sender the call changes nothing at all; on a full queue the queue is unchanged
  (only the diagnostic is printed) and the new entry is dropped. The function is total, so
  no call throws. Enqueuing \<open>QUEUE_CAPACITY + 1\<close> entries on a new sender keeps exactly the
  first \<open>QUEUE_CAPACITY\<close> of them, and ten calls of \<open>sendBatch\<close> retrieve exactly these.
\<close>

theorem addLog_bounded:
  "length (logQueue (addLog entry s)) \<le> max (length (logQueue s)) QUEUE_CAPACITY
   \<and> (length (logQueue s) \<le> QUEUE_CAPACITY \<longrightarrow>
        length (logQueue (addLog entry s)) \<le> QUEUE_CAPACITY)
   \<and> (stopped s \<longrightarrow> addLog entry s = s)
   \<and> (QUEUE_CAPACITY \<le> length (logQueue s) \<longrightarrow> logQueue (addLog entry s) = logQueue s)
   \<and> (length entries = QUEUE_CAPACITY + 1 \<longrightarrow>
        logQueue (enqueue_all entries (new_Sender c)) = take QUEUE_CAPACITY entries
        \<and> length (logQueue (enqueue_all entries (new_Sender c))) = QUEUE_CAPACITY
        \<and> concat (dispatched ((sendBatch ^^ 10) (enqueue_all entries (new_Sender c))))
            = take QUEUE_CAPACITY entries
        \<and> logQueue ((sendBatch ^^ 10) (enqueue_all entries (new_Sender c))) = [])"
proof -
  have a: "length (logQueue (addLog entry s)) \<le> max (length (logQueue s)) QUEUE_CAPACITY"
    by (simp add: addLog_queue)
  have b: "stopped s \<longrightarrow> addLog entry s = s"
    by (simp add: addLog_stopped_id)
  have c: "QUEUE_CAPACITY \<le> length (logQueue s) \<longrightarrow> logQueue (addLog entry s) = logQueue s"
    by (simp add: addLog_queue)
  have d: "length entries = QUEUE_CAPACITY + 1 \<longrightarrow>
        logQueue (enqueue_all entries (new_Sender c)) = take QUEUE_CAPACITY entries
        \<and> length (logQueue (enqueue_all entries (new_Sender c))) = QUEUE_CAPACITY
        \<and> concat (dispatched ((sendBatch ^^ 10) (enqueue_all entries (new_Sender c))))
            = take QUEUE_CAPACITY entries
        \<and> logQueue ((sendBatch ^^ 10) (enqueue_all entries (new_Sender c))) = []"
  proof
    assume len: "length entries = QUEUE_CAPACITY + 1"
    let ?s = "enqueue_all entries (new_Sender c)"
    have q: "logQueue ?s = take QUEUE_CAPACITY entries"
      using enqueue_all_queue [of "new_Sender c" entries] by (simp add: new_Sender_def)
    have l: "length (logQueue ?s) = QUEUE_CAPACITY"
      using len by (simp add: q)
    have e: "logQueue ((sendBatch ^^ 10) ?s) = []"
      using l by (simp add: sendBatch_pow_queue BATCH_SIZE_def QUEUE_CAPACITY_def)
    have disp0: "dispatched ?s = []"
    proof -
      have "\<And>s. dispatched (enqueue_all entries s) = dispatched s"
        by (induction entries) (simp_all add: enqueue_all_def addLog_def)
      then show ?thesis by (simp add: new_Sender_def)
    qed
    have "concat (dispatched ((sendBatch ^^ 10) ?s)) @ logQueue ((sendBatch ^^ 10) ?s)
            = concat (dispatched ?s) @ logQueue ?s"
      by (rule sendBatch_pow_conserves)
    then have "concat (dispatched ((sendBatch ^^ 10) ?s)) = take QUEUE_CAPACITY entries"
      by (simp add: e disp0 q)
    with q l e show "logQueue ?s = take QUEUE_CAPACITY entries
        \<and> length (logQueue ?s) = QUEUE_CAPACITY
        \<and> concat (dispatched ((sendBatch ^^ 10) ?s)) = take QUEUE_CAPACITY entries
        \<and> logQueue ((sendBatch ^^ 10) ?s) = []" by simp
  qed
  have a': "length (logQueue s) \<le> QUEUE_CAPACITY \<longrightarrow>
        length (logQueue (addLog entry s)) \<le> QUEUE_CAPACITY"
    by (auto simp: addLog_queue)
  from a a' b c d show ?thesis by blast
qed

theorem addLog_bounded_witness:
  "stopped ((new_Sender sample_config)\<lparr>stopped := True\<rparr>)
   \<and> addLog (sample_entry 0) ((new_Sender sample_config)\<lparr>stopped := True\<rparr>)
       = (new_Sender sample_config)\<lparr>stopped := True\<rparr>
   \<and> QUEUE_CAPACITY \<le> length (logQueue ((new_Sender sample_config)\<lparr>logQueue := map sample_entry [0..<10000]\<rparr>))
   \<and> logQueue (addLog (sample_entry 10000) ((new_Sender sample_config)\<lparr>logQueue := map sample_entry [0..<10000]\<rparr>))
       = map sample_entry [0..<10000]
   \<and> length (map sample_entry [0..<10001]) = QUEUE_CAPACITY + 1
   \<and> logQueue (enqueue_all (map sample_entry [0..<10001]) (new_Sender sample_config))
       = map sample_entry [0..<10000]"
  using addLog_bounded [of "sample_entry 0" "(new_Sender sample_config)\<lparr>stopped := True\<rparr>"
          "map sample_entry [0..<10001]" sample_config]
        addLog_bounded [of "sample_entry 10000"
          "(new_Sender sample_config)\<lparr>logQueue := map sample_entry [0..<10000]\<rparr>"
          "map sample_entry [0..<10001]" sample_config]
  by (simp add: QUEUE_CAPACITY_def take_map)

text \<open>
  Claim C4. \<open>sendBatch\<close> on an empty queue does nothing. Otherwise it dispatches exactly
  the first \<open>min (length queue) BATCH_SIZE\<close> entries in their order and keeps the rest: the
  batches dispatched so far followed by the queue are the same entries before and after
  the call, so none is lost or duplicated. An entry enqueued on an empty running queue
  and taken at once is the whole batch.
\<close>

theorem sendBatch_takes_prefix:
  "(logQueue s = [] \<longrightarrow> sendBatch s = s)
   \<and> (logQueue s \<noteq> [] \<longrightarrow>
        dispatched (sendBatch s) = dispatched s @ [take (min (length (logQueue s)) BATCH_SIZE) (logQueue s)])
   \<and> logQueue (sendBatch s) = drop (min (length (logQueue s)) BATCH_SIZE) (logQueue s)
   \<and> concat (dispatched (sendBatch s)) @ logQueue (sendBatch s) = concat (dispatched s) @ logQueue s
   \<and> (\<not> stopped s \<and> logQueue s = [] \<longrightarrow>
        dispatched (sendBatch (addLog entry s)) = dispatched s @ [[entry]]
        \<and> logQueue (sendBatch (addLog entry s)) = [])"
proof -
  have a: "logQueue s = [] \<longrightarrow> sendBatch s = s"
    by (simp add: sendBatch_def)
  have b: "logQueue s \<noteq> [] \<longrightarrow>
        dispatched (sendBatch s) = dispatched s @ [take (min (length (logQueue s)) BATCH_SIZE) (logQueue s)]"
    by (simp add: sendBatch_dispatched min_def)
  have c: "logQueue (sendBatch s) = drop (min (length (logQueue s)) BATCH_SIZE) (logQueue s)"
    by (simp add: sendBatch_queue min_def)
  have d: "\<not> stopped s \<and> logQueue s = [] \<longrightarrow>
        dispatched (sendBatch (addLog entry s)) = dispatched s @ [[entry]]
        \<and> logQueue (sendBatch (addLog entry s)) = []"
    by (simp add: sendBatch_dispatched sendBatch_queue addLog_def QUEUE_CAPACITY_def BATCH_SIZE_def)
  from a b c d sendBatch_conserves [of s] show ?thesis by blast
qed

theorem sendBatch_takes_prefix_witness:
  "logQueue (new_Sender sample_config) = []
   \<and> sendBatch (new_Sender sample_config) = new_Sender sample_config
   \<and> \<not> stopped (new_Sender sample_config)
   \<and> dispatched (sendBatch (addLog (sample_entry 7) (new_Sender sample_config))) = [[sample_entry 7]]
   \<and> logQueue ((new_Sender sample_config)\<lparr>logQueue := map sample_entry [0..<1001]\<rparr>) \<noteq> []
   \<and> dispatched (sendBatch ((new_Sender sample_config)\<lparr>logQueue := map sample_entry [0..<1001]\<rparr>))
       = [map sample_entry [0..<1000]]"
  using sendBatch_takes_prefix [of "new_Sender sample_config" "sample_entry 7"]
        sendBatch_takes_prefix [of "(new_Sender sample_config)\<lparr>logQueue := map sample_entry [0..<1001]\<rparr>" "sample_entry 7"]
  by (simp add: new_Sender_def BATCH_SIZE_def take_map)

lemma sendBatch_keeps_stopped [simp]: "stopped (sendBatch s) = stopped s"
  by (simp add: sendBatch_def sendHTTPRequest_begin_def Let_def)

lemma shutdown_stops [simp]: "stopped (shutdown s)"
  by (simp add: shutdown_def)

lemma rejected_loop_keeps:
  "stopped (snd (rejected_loop logs errs s)) = stopped s
   \<and> inFlightRequests (snd (rejected_loop logs errs s)) = inFlightRequests s
   \<and> logQueue (snd (rejected_loop logs errs s)) = logQueue s
   \<and> dispatched (snd (rejected_loop logs errs s)) = dispatched s"
  by (induction logs errs s rule: rejected_loop.induct) (simp_all split: option.splits)

lemma handleRejectedLogs_keeps:
  "stopped (snd (handleRejectedLogs r logs s)) = stopped s
   \<and> inFlightRequests (snd (handleRejectedLogs r logs s)) = inFlightRequests s
   \<and> logQueue (snd (handleRejectedLogs r logs s)) = logQueue s
   \<and> dispatched (snd (handleRejectedLogs r logs s)) = dispatched s"
  by (simp add: handleRejectedLogs_def Let_def rejected_loop_keeps split: option.splits)

lemma try_block_keeps:
  "stopped (snd (try_block p logs outcome s)) = stopped s
   \<and> inFlightRequests (snd (try_block p logs outcome s)) = inFlightRequests s
   \<and> logQueue (snd (try_block p logs outcome s)) = logQueue s
   \<and> dispatched (snd (try_block p logs outcome s)) = dispatched s"
  by (simp add: try_block_def handleRejectedLogs_keeps split: request_outcome.splits parsed.splits)

lemma catch_block_keeps:
  "stopped (snd (catch_block cs)) = stopped (snd cs)
   \<and> inFlightRequests (snd (catch_block cs)) = inFlightRequests (snd cs)
   \<and> logQueue (snd (catch_block cs)) = logQueue (snd cs)
   \<and> dispatched (snd (catch_block cs)) = dispatched (snd cs)"
  by (simp add: catch_block_def split: completion.splits)

lemma catch_block_no_throw: "fst (catch_block cs) \<noteq> Throw err"
  by (simp add: catch_block_def split: completion.splits)

lemma settle_keeps:
  "stopped (snd (sendHTTPRequest_settle p logs outcome s)) = stopped s
   \<and> inFlightRequests (snd (sendHTTPRequest_settle p logs outcome s)) = inFlightRequests s - 1
   \<and> logQueue (snd (sendHTTPRequest_settle p logs outcome s)) = logQueue s
   \<and> dispatched (snd (sendHTTPRequest_settle p logs outcome s)) = dispatched s"
  by (simp add: sendHTTPRequest_settle_def finally_block_def catch_block_keeps try_block_keeps)

lemma settle_no_throw: "fst (sendHTTPRequest_settle p logs outcome s) \<noteq> Throw err"
  by (simp add: sendHTTPRequest_settle_def finally_block_def catch_block_no_throw)

lemma step_keeps_stopped: "stopped s \<Longrightarrow> stopped (step p s ev)"
  by (cases ev) (simp_all add: flush_def settle_keeps)

lemma run_keeps_stopped: "stopped s \<Longrightarrow> stopped (run p evs s)"
  unfolding run_def by (induction evs arbitrary: s) (simp_all add: step_keeps_stopped)

lemma run_enqueue_shutdown_id:
  "stopped s \<Longrightarrow> \<forall>ev \<in> set evs. is_enqueue_or_shutdown ev \<Longrightarrow> run p evs s = s"
  unfolding run_def
proof (induction evs)
  case Nil
  then show ?case by simp
next
  case (Cons ev evs)
  from Cons.prems have "step p s ev = s"
    by (cases ev) (simp_all add: addLog_def shutdown_def)
  with Cons show ?case by simp
qed

text \<open>The bound on the queue is an invariant of the sender under all events.\<close>

lemma step_queue_bounded:
  "length (logQueue s) \<le> QUEUE_CAPACITY \<Longrightarrow> length (logQueue (step p s ev)) \<le> QUEUE_CAPACITY"
  by (cases ev)
    (auto simp: addLog_queue flush_def shutdown_def sendBatch_queue settle_keeps)

lemma queue_never_exceeds_capacity:
  "length (logQueue (run p evs (new_Sender c))) \<le> QUEUE_CAPACITY"
proof -
  have "\<And>s. length (logQueue s) \<le> QUEUE_CAPACITY \<Longrightarrow>
          length (logQueue (foldl (step p) s evs)) \<le> QUEUE_CAPACITY"
    by (induction evs) (simp_all add: step_queue_bounded)
  then show ?thesis
    by (simp add: run_def new_Sender_def)
qed

lemma step_stopped_empty:
  assumes "stopped s" and "logQueue s = []"
  shows "stopped (step p s ev) \<and> logQueue (step p s ev) = []
         \<and> dispatched (step p s ev) = dispatched s"
  using assms
  by (cases ev) (simp_all add: addLog_def flush_def shutdown_def sendBatch_def settle_keeps)

lemma run_stopped_empty:
  "stopped s \<Longrightarrow> logQueue s = [] \<Longrightarrow>
   logQueue (run p evs s) = [] \<and> dispatched (run p evs s) = dispatched s"
  unfolding run_def
proof (induction evs arbitrary: s)
  case Nil
  then show ?case by simp
next
  case (Cons ev evs)
  from step_stopped_empty [OF Cons.prems, of p ev]
  have st: "stopped (step p s ev)" and q: "logQueue (step p s ev) = []"
    and d: "dispatched (step p s ev) = dispatched s"
    by simp_all
  from Cons.IH [OF st q] d show ?case by simp
qed

text \<open>
  Claim C7. \<open>shutdown\<close> leaves the sender stopped, and a stopped sender stays stopped
  under every sequence of events (calls, timer ticks, settling requests). On a stopped
  sender a further \<open>shutdown\<close> returns the state as it is, \<open>addLog\<close> returns the state as it
  is (so the queue length does not change), and no sequence of enqueues and shutdowns
  changes the state, so nothing more is dispatched. When the queue of the stopped sender
  is empty, no sequence of events whatever dispatches anything more. (Entries that
  \<open>shutdown\<close> left in the queue can still be sent by a later \<open>flush\<close>, which does not look
  at \<open>stopped\<close>.)
\<close>

theorem stopped_is_final:
  "stopped (shutdown s)
   \<and> (stopped s \<longrightarrow>
        shutdown s = s
        \<and> addLog entry s = s
        \<and> length (logQueue (addLog entry s)) = length (logQueue s)
        \<and> stopped (run JSON_parse evs s)
        \<and> ((\<forall>ev \<in> set evs. is_enqueue_or_shutdown ev) \<longrightarrow>
              run JSON_parse evs s = s \<and> dispatched (run JSON_parse evs s) = dispatched s)
        \<and> (logQueue s = [] \<longrightarrow>
              logQueue (run JSON_parse evs s) = []
              \<and> dispatched (run JSON_parse evs s) = dispatched s))"
proof -
  have "stopped s \<longrightarrow> shutdown s = s \<and> addLog entry s = s"
    by (simp add: shutdown_def addLog_def)
  moreover have "stopped s \<longrightarrow> stopped (run JSON_parse evs s)"
    by (simp add: run_keeps_stopped)
  moreover have "stopped s \<longrightarrow> (\<forall>ev \<in> set evs. is_enqueue_or_shutdown ev) \<longrightarrow> run JSON_parse evs s = s"
    by (simp add: run_enqueue_shutdown_id)
  moreover have "stopped s \<longrightarrow> logQueue s = [] \<longrightarrow>
      logQueue (run JSON_parse evs s) = [] \<and> dispatched (run JSON_parse evs s) = dispatched s"
    by (simp add: run_stopped_empty)
  ultimately show ?thesis by auto
qed

theorem stopped_is_final_witness:
  "stopped (shutdown (new_Sender sample_config))
   \<and> logQueue (shutdown (new_Sender sample_config)) = []
   \<and> list_all is_enqueue_or_shutdown [AddLog (sample_entry 1), Shutdown, AddLog (sample_entry 2)]
   \<and> shutdown (shutdown (new_Sender sample_config)) = shutdown (new_Sender sample_config)
   \<and> addLog (sample_entry 1) (shutdown (new_Sender sample_config)) = shutdown (new_Sender sample_config)
   \<and> run (\<lambda>body. Unparseable) [AddLog (sample_entry 1), Shutdown, AddLog (sample_entry 2)]
        (shutdown (new_Sender sample_config)) = shutdown (new_Sender sample_config)
   \<and> dispatched (run (\<lambda>body. Unparseable) [AddLog (sample_entry 1), Flush, Tick]
        (shutdown (new_Sender sample_config))) = []"
proof -
  have q: "logQueue (shutdown (new_Sender sample_config)) = []"
    and d: "dispatched (shutdown (new_Sender sample_config)) = []"
    by (simp_all add: shutdown_def sendBatch_def new_Sender_def)
  show ?thesis
    using stopped_is_final [of "shutdown (new_Sender sample_config)" "sample_entry 1"
            "\<lambda>body. Unparseable" "[AddLog (sample_entry 1), Shutdown, AddLog (sample_entry 2)]"]
          stopped_is_final [of "shutdown (new_Sender sample_config)" "sample_entry 1"
            "\<lambda>body. Unparseable" "[AddLog (sample_entry 1), Flush, Tick]"]
    by (simp add: q d)
qed

text \<open>
  Claim C2, at a queue of 1001 entries (within the capacity) on a running sender:
  \<open>shutdown\<close> calls \<open>sendBatch\<close> once, which takes \<open>BATCH_SIZE\<close> entries. The entry
  numbered 1000 stays in the queue and only 1000 entries reach the dispatcher.
\<close>

theorem shutdown_leaves_entries_behind:
  "\<not> stopped ((new_Sender sample_config)\<lparr>logQueue := map sample_entry [0..<1001]\<rparr>)
   \<and> length (map sample_entry [0..<1001]) \<le> QUEUE_CAPACITY
   \<and> logQueue (shutdown ((new_Sender sample_config)\<lparr>logQueue := map sample_entry [0..<1001]\<rparr>))
       = [sample_entry 1000]
   \<and> dispatched (shutdown ((new_Sender sample_config)\<lparr>logQueue := map sample_entry [0..<1001]\<rparr>))
       = [map sample_entry [0..<1000]]
   \<and> length (concat (dispatched (shutdown
         ((new_Sender sample_config)\<lparr>logQueue := map sample_entry [0..<1001]\<rparr>)))) = 1000"
  by (simp add: shutdown_def sendBatch_queue sendBatch_dispatched new_Sender_def BATCH_SIZE_def
      QUEUE_CAPACITY_def take_map drop_map)

lemma shutdown_drains_one_batch:
  "\<not> stopped s \<Longrightarrow> length (logQueue s) \<le> BATCH_SIZE \<Longrightarrow>
   logQueue (shutdown s) = []
   \<and> concat (dispatched (shutdown s)) = concat (dispatched s) @ logQueue s"
  by (simp add: shutdown_def sendBatch_queue sendBatch_dispatched)

lemma range_test_iff:
  "ge_zero (index error) \<and> less_than_length (index error) (length sentLogs)
     \<longleftrightarrow> index_in_range sentLogs error"
  by (simp add: ge_zero_def less_than_length_def index_in_range_def split: js_number.splits)

lemma array_get_integer:
  "index_in_range sentLogs error \<Longrightarrow> is_integer (index error) \<Longrightarrow>
   array_get sentLogs (index error) = Some (sentLogs ! position (index error))"
  by (cases "index error")
    (simp_all add: index_in_range_def is_integer_def array_get_def position_def
      del: of_int_floor_cancel)

lemma array_get_fraction:
  "\<not> is_integer i \<Longrightarrow> array_get xs i = None"
  by (cases i) (simp_all add: is_integer_def array_get_def del: of_int_floor_cancel)

lemma half_is_no_integer: "\<not> is_integer (Finite (1 / 2))"
proof -
  have "\<lfloor>1 / 2 :: rat\<rfloor> = 0"
    by (rule floor_unique) simp_all
  then show ?thesis
    by (simp add: is_integer_def del: of_int_floor_cancel)
qed

lemma rejected_loop_result:
  assumes "\<forall>error \<in> set errs. index_in_range sentLogs error \<longrightarrow> is_integer (index error)"
  shows "rejected_loop sentLogs errs s
           = (Normal, s\<lparr>console := console s @ reported_lines sentLogs errs\<rparr>)"
  using assms
proof (induction errs arbitrary: s)
  case Nil
  then show ?case by (simp add: reported_lines_def)
next
  case (Cons error rest)
  from Cons.prems have rest: "\<forall>e \<in> set rest. index_in_range sentLogs e \<longrightarrow> is_integer (index e)"
    by simp
  show ?case
  proof (cases "index_in_range sentLogs error")
    case True
    with Cons.prems have "is_integer (index error)" by simp
    with True have "array_get sentLogs (index error) = Some (sentLogs ! position (index error))"
      by (rule array_get_integer)
    moreover from True
    have "ge_zero (index error) \<and> less_than_length (index error) (length sentLogs)"
      by (simp add: range_test_iff)
    ultimately have "rejected_loop sentLogs (error # rest) s =
        rejected_loop sentLogs rest
          (s\<lparr>console := console s @ rejected_lines error (sentLogs ! position (index error))\<rparr>)"
      by simp
    with True show ?thesis
      by (simp add: Cons.IH [OF rest] reported_lines_def)
  next
    case False
    then have "\<not> (ge_zero (index error) \<and> less_than_length (index error) (length sentLogs))"
      by (simp add: range_test_iff)
    then have "rejected_loop sentLogs (error # rest) s = rejected_loop sentLogs rest s"
      by auto
    with False show ?thesis
      by (simp add: Cons.IH [OF rest] reported_lines_def)
  qed
qed

text \<open>
  A record whose index passes the range test without being an integer ends the loop: its
  first line is printed, the read of \<open>log.level\<close> throws, and the records after it are
  never looked at.
\<close>

lemma rejected_loop_throws:
  assumes "index_in_range sentLogs error" and "\<not> is_integer (index error)"
  shows "rejected_loop sentLogs (error # rest) s
           = (Throw TypeError, console_error (RejectedEntry (index error) (rejmessage error)) s)"
  using assms by (simp add: range_test_iff array_get_fraction)

text \<open>
  Claim C9, as amended. For every response in which each reported index with
  \<open>0 \<le> index < batch length\<close> is an integer (the wire format has integers), and every
  batch, \<open>handleRejectedLogs\<close> completes normally. It prints the count line, the header
  when there are error records, and then, for exactly the records whose index satisfies
  \<open>0 \<le> index < batch length\<close> and in their order, the line with the index and the reason
  followed by the level, the message, the timestamp and (when there are any) the fields
  of the batch entry at that index. The other records, whether negative, too large,
  infinite or \<open>NaN\<close>, print nothing and the batch is not read for them. No other field of
  the sender changes.
\<close>

theorem handleRejectedLogs_integer_indices:
  assumes "\<forall>error \<in> set (reported_errors response).
             index_in_range sentLogs error \<longrightarrow> is_integer (index error)"
  shows "fst (handleRejectedLogs response sentLogs s) = Normal
   \<and> snd (handleRejectedLogs response sentLogs s) =
       s\<lparr>console := console s @ RejectedCount (rejected response) #
          (if reported_errors response = [] then []
           else RejectedDetails #
             concat (map
               (\<lambda>error.
                  [RejectedEntry (index error) (rejmessage error),
                   RejectedLevel (level (sentLogs ! position (index error))),
                   RejectedMessage (message (sentLogs ! position (index error))),
                   RejectedTimestamp (timestamp (sentLogs ! position (index error)))]
                  @ (if entry_fields (sentLogs ! position (index error)) \<noteq> []
                     then [RejectedFields (entry_fields (sentLogs ! position (index error)))]
                     else []))
               (filter (index_in_range sentLogs) (reported_errors response))))\<rparr>"
proof (cases "errors response")
  case None
  then show ?thesis
    by (simp add: handleRejectedLogs_def Let_def reported_errors_def console_error_def)
next
  case (Some errs)
  with assms have "\<forall>error \<in> set errs. index_in_range sentLogs error \<longrightarrow> is_integer (index error)"
    by (simp add: reported_errors_def)
  then have "\<And>s'. rejected_loop sentLogs errs s'
           = (Normal, s'\<lparr>console := console s' @ reported_lines sentLogs errs\<rparr>)"
    by (rule rejected_loop_result)
  with Some show ?thesis
    by (simp add: handleRejectedLogs_def Let_def reported_errors_def console_error_def
        reported_lines_def rejected_lines_def)
qed

text \<open>
  Claim C9, the amended statement at a batch of two entries and a response that reports
  the indices 1, 5, -1, 5/2 and infinity: only the record with index 1 is printed.
\<close>

theorem handleRejectedLogs_integer_indices_witness:
  "list_all (\<lambda>error. \<not> index_in_range [sample_entry 0, sample_log] error \<or> is_integer (index error))
     [\<lparr>index = Finite 1, rejmessage = [0x72]\<rparr>, \<lparr>index = Finite 5, rejmessage = []\<rparr>,
      \<lparr>index = Finite (- 1), rejmessage = []\<rparr>, \<lparr>index = Finite (5 / 2), rejmessage = []\<rparr>,
      \<lparr>index = PlusInfinity, rejmessage = []\<rparr>]
   \<and> handleRejectedLogs
        \<lparr>accepted = 1, rejected = 1, respmessage = None,
         errors = Some [\<lparr>index = Finite 1, rejmessage = [0x72]\<rparr>, \<lparr>index = Finite 5, rejmessage = []\<rparr>,
                        \<lparr>index = Finite (- 1), rejmessage = []\<rparr>,
                        \<lparr>index = Finite (5 / 2), rejmessage = []\<rparr>,
                        \<lparr>index = PlusInfinity, rejmessage = []\<rparr>]\<rparr>
        [sample_entry 0, sample_log] (new_Sender sample_config)
     = (Normal,
        (new_Sender sample_config)
          \<lparr>console := [RejectedCount 1, RejectedDetails, RejectedEntry (Finite 1) [0x72],
                       RejectedLevel [0x45], RejectedMessage [0x6D], RejectedTimestamp [0x74],
                       RejectedFields [([0x6B], JNum 1)]]\<rparr>)"
proof -
  let ?errs = "[\<lparr>index = Finite 1, rejmessage = [0x72]\<rparr>, \<lparr>index = Finite 5, rejmessage = []\<rparr>,
      \<lparr>index = Finite (- 1), rejmessage = []\<rparr>, \<lparr>index = Finite (5 / 2), rejmessage = []\<rparr>,
      \<lparr>index = PlusInfinity, rejmessage = []\<rparr>]"
  let ?response = "\<lparr>accepted = 1, rejected = 1, respmessage = None, errors = Some ?errs\<rparr>"
  let ?logs = "[sample_entry 0, sample_log]"
  have hyp: "\<forall>error \<in> set (reported_errors ?response).
               index_in_range ?logs error \<longrightarrow> is_integer (index error)"
    by (simp add: reported_errors_def index_in_range_def is_integer_def)
  have inr: "filter (index_in_range ?logs) ?errs = [\<lparr>index = Finite 1, rejmessage = [0x72]\<rparr>]"
    by (simp add: index_in_range_def)
  have re: "reported_errors ?response = ?errs"
    by (simp add: reported_errors_def)
  have pos: "position (Finite 1) = 1"
    by (simp add: position_def)
  note th = handleRejectedLogs_integer_indices [OF hyp, of "new_Sender sample_config"]
  have "handleRejectedLogs ?response ?logs (new_Sender sample_config)
     = (Normal,
        (new_Sender sample_config)
          \<lparr>console := [RejectedCount 1, RejectedDetails, RejectedEntry (Finite 1) [0x72],
                       RejectedLevel [0x45], RejectedMessage [0x6D], RejectedTimestamp [0x74],
                       RejectedFields [([0x6B], JNum 1)]]\<rparr>)"
    using th unfolding re inr
    by (simp add: prod_eq_iff pos sample_log_def new_Sender_def)
  moreover have "list_all (\<lambda>error. \<not> index_in_range ?logs error \<or> is_integer (index error)) ?errs"
    by (simp add: index_in_range_def is_integer_def)
  ultimately show ?thesis by simp
qed

text \<open>
  Claim C9 as stated fails at a batch of one entry and a response that reports the
  indices 1/2 and 0. Both satisfy \<open>0 \<le> index < 1\<close>. For the first, \<open>sentLogs[0.5]\<close> is
  \<open>undefined\<close>: its first line is printed and the read of \<open>log.level\<close> throws a \<open>TypeError\<close>,
  so the handling is not total, the record gets no level, message or timestamp line, and
  the record with index 0 is never reported. (\<open>sendHTTPRequest\<close> catches the error and
  prints it as a failed request.)
\<close>

theorem handleRejectedLogs_throws_on_fraction:
  "index_in_range [sample_log] \<lparr>index = Finite (1 / 2), rejmessage = [0x72]\<rparr>
   \<and> index_in_range [sample_log] \<lparr>index = Finite 0, rejmessage = [0x72]\<rparr>
   \<and> handleRejectedLogs
        \<lparr>accepted = 0, rejected = 2, respmessage = None,
         errors = Some [\<lparr>index = Finite (1 / 2), rejmessage = [0x72]\<rparr>,
                        \<lparr>index = Finite 0, rejmessage = [0x72]\<rparr>]\<rparr>
        [sample_log] (new_Sender sample_config)
     = (Throw TypeError,
        (new_Sender sample_config)
          \<lparr>console := [RejectedCount 2, RejectedDetails, RejectedEntry (Finite (1 / 2)) [0x72]]\<rparr>)
   \<and> console (snd (sendHTTPRequest_settle
          (\<lambda>body. Parsed \<lparr>accepted = 0, rejected = 2, respmessage = None,
             errors = Some [\<lparr>index = Finite (1 / 2), rejmessage = [0x72]\<rparr>,
                            \<lparr>index = Finite 0, rejmessage = [0x72]\<rparr>]\<rparr>)
          [sample_log] (Resolves 202 []) (new_Sender sample_config)))
     = [RejectedCount 2, RejectedDetails, RejectedEntry (Finite (1 / 2)) [0x72],
        RequestFailed TypeError]"
proof -
  let ?half = "\<lparr>index = Finite (1 / 2), rejmessage = [0x72]\<rparr>"
  let ?zero = "\<lparr>index = Finite 0, rejmessage = [0x72]\<rparr>"
  have r1: "index_in_range [sample_log] ?half" and r2: "index_in_range [sample_log] ?zero"
    by (simp_all add: index_in_range_def)
  have "\<not> is_integer (index ?half)"
    by (simp add: half_is_no_integer)
  with r1 have loop: "\<And>s. rejected_loop [sample_log] [?half, ?zero] s
      = (Throw TypeError, console_error (RejectedEntry (Finite (1 / 2)) [0x72]) s)"
    using rejected_loop_throws [of "[sample_log]" ?half "[?zero]"] by simp
  let ?response = "\<lparr>accepted = 0, rejected = 2, respmessage = None,
                       errors = Some [?half, ?zero]\<rparr>"
  have h: "handleRejectedLogs ?response [sample_log] (new_Sender sample_config)
     = (Throw TypeError,
        (new_Sender sample_config)
          \<lparr>console := [RejectedCount 2, RejectedDetails, RejectedEntry (Finite (1 / 2)) [0x72]]\<rparr>)"
    by (simp add: handleRejectedLogs_def Let_def loop console_error_def new_Sender_def
        del: rejected_loop.simps)
  have "console (snd (sendHTTPRequest_settle (\<lambda>body. Parsed ?response) [sample_log]
          (Resolves 202 []) (new_Sender sample_config)))
     = [RejectedCount 2, RejectedDetails, RejectedEntry (Finite (1 / 2)) [0x72],
        RequestFailed TypeError]"
    by (simp add: sendHTTPRequest_settle_def try_block_def h catch_block_def finally_block_def
        console_error_def del: rejected_loop.simps)
  with r1 r2 h show ?thesis by simp
qed

text \<open>
  Claim C5. For every outcome of the request, every body, every parse result and every
  batch, \<open>sendHTTPRequest\<close> does not complete by throwing, and the counter after it equals
  the counter before it: the start adds one, the settling takes one away and does not
  throw either.
\<close>

theorem sendHTTPRequest_balanced:
  "(\<forall>err. fst (sendHTTPRequest JSON_parse logs outcome s) \<noteq> Throw err)
   \<and> inFlightRequests (snd (sendHTTPRequest JSON_parse logs outcome s)) = inFlightRequests s
   \<and> inFlightRequests (sendHTTPRequest_begin logs s) = inFlightRequests s + 1
   \<and> (\<forall>err. fst (sendHTTPRequest_settle JSON_parse logs outcome s) \<noteq> Throw err)
   \<and> inFlightRequests (snd (sendHTTPRequest_settle JSON_parse logs outcome s)) = inFlightRequests s - 1"
  by (simp add: sendHTTPRequest_def settle_keeps settle_no_throw sendHTTPRequest_begin_def)

lemma length_trim_le: "length (trim msg) \<le> length msg"
proof -
  have "length (dropWhile is_js_whitespace (rev (dropWhile is_js_whitespace msg)))
          \<le> length (rev (dropWhile is_js_whitespace msg))"
    by (rule length_dropWhile_le)
  also have "\<dots> \<le> length msg"
    by (simp add: length_dropWhile_le)
  finally show ?thesis by (simp add: trim_def)
qed

text \<open>
  Claim C10. \<open>formatMessage\<close> returns the trimmed string when it has at most 10000 code
  units, and otherwise its first 9997 code units followed by three full stops; the result
  never has more than 10000 code units.
\<close>

theorem formatMessage_truncates:
  "(length (trim msg) \<le> 10000 \<longrightarrow> formatMessage msg = trim msg)
   \<and> (length (trim msg) > 10000 \<longrightarrow> formatMessage msg = take 9997 (trim msg) @ ellipsis)
   \<and> length (formatMessage msg) \<le> 10000"
  by (simp add: formatMessage_def Let_def MAX_MESSAGE_LENGTH_def substring0_def ellipsis_def)

lemma trim_no_whitespace:
  "\<not> is_js_whitespace c \<Longrightarrow> trim (replicate (Suc n) c) = replicate (Suc n) c"
proof -
  assume c: "\<not> is_js_whitespace c"
  then have "dropWhile is_js_whitespace (c # replicate n c) = c # replicate n c"
    by simp
  then have "dropWhile is_js_whitespace (replicate (Suc n) c) = replicate (Suc n) c"
    by (simp only: replicate_Suc)
  then show ?thesis
    by (simp only: trim_def rev_replicate)
qed

theorem formatMessage_truncates_witness:
  "length (trim [0x20, 0x61, 0x62, 0x20]) \<le> 10000
   \<and> formatMessage [0x20, 0x61, 0x62, 0x20] = [0x61, 0x62]
   \<and> length (trim (replicate 10001 0x61)) > 10000
   \<and> formatMessage (replicate 10001 0x61) = replicate 9997 0x61 @ [0x2E, 0x2E, 0x2E]"
proof -
  have t1: "trim [0x20, 0x61, 0x62, 0x20] = [0x61, 0x62]"
    by (simp add: trim_def is_js_whitespace_def)
  have "\<not> is_js_whitespace 0x61"
    by (simp add: is_js_whitespace_def)
  then have "trim (replicate (Suc 10000) 0x61) = replicate (Suc 10000) 0x61"
    by (rule trim_no_whitespace)
  then have t2: "trim (replicate 10001 0x61) = replicate 10001 0x61"
    by simp
  show ?thesis
    using formatMessage_truncates [of "[0x20, 0x61, 0x62, 0x20]"]
          formatMessage_truncates [of "replicate 10001 0x61"]
    by (simp add: t1 t2 ellipsis_def)
qed

section \<open>The Date object and strings of numbers: proofs\<close>

lemma div_succ:
  fixes a n :: int
  assumes n: "n > 0"
  shows "(a + 1) div n = a div n + (if (a + 1) mod n = 0 then 1 else 0)"
proof -
  have decomp: "a = n * (a div n) + a mod n"
    by simp
  have lo: "0 \<le> a mod n" and hi: "a mod n < n"
    using n by simp_all
  show ?thesis
  proof (cases "a mod n = n - 1")
    case True
    have eq: "a + 1 = n * (a div n + 1) + 0"
      using decomp True by (simp add: algebra_simps)
    have "(a + 1) div n = a div n + 1"
      using eq n by (intro int_div_pos_eq [where r = 0]) simp_all
    moreover have "(a + 1) mod n = 0"
      using eq n by (intro int_mod_pos_eq [where q = "a div n + 1"]) simp_all
    ultimately show ?thesis by simp
  next
    case False
    with hi have less: "a mod n + 1 < n" by linarith
    have eq: "a + 1 = n * (a div n) + (a mod n + 1)"
      using decomp by linarith
    have "(a + 1) div n = a div n"
      using eq lo less by (intro int_div_pos_eq [where r = "a mod n + 1"]) simp_all
    moreover have "(a + 1) mod n = a mod n + 1"
      using eq lo less by (intro int_mod_pos_eq [where q = "a div n"]) simp_all
    ultimately show ?thesis using lo by simp
  qed
qed

lemma mod_shift:
  "(y - 1968) mod 4 = y mod 4" "(y - 1900) mod 100 = y mod 100" "(y - 1600) mod 400 = y mod 400"
  for y :: int
proof -
  have "(y + 4 * (- 492)) mod 4 = y mod 4" by (rule mod_mult_self2)
  then show "(y - 1968) mod 4 = y mod 4" by simp
  have "(y + 100 * (- 19)) mod 100 = y mod 100" by (rule mod_mult_self2)
  then show "(y - 1900) mod 100 = y mod 100" by simp
  have "(y + 400 * (- 4)) mod 400 = y mod 400" by (rule mod_mult_self2)
  then show "(y - 1600) mod 400 = y mod 400" by simp
qed

lemma mod_chain:
  "y mod 400 = 0 \<Longrightarrow> y mod 100 = 0" "y mod 100 = 0 \<Longrightarrow> y mod 4 = 0"
  for y :: int
proof -
  show "y mod 400 = 0 \<Longrightarrow> y mod 100 = 0"
    using mod_mod_cancel [of 100 400 y] by simp
  show "y mod 100 = 0 \<Longrightarrow> y mod 4 = 0"
    using mod_mod_cancel [of 4 100 y] by simp
qed

lemma DayFromYear_step: "DayFromYear (y + 1) = DayFromYear y + DaysInYear y"
proof -
  have a: "(y + 1 - 1969) div 4 = (y - 1969) div 4 + (if y mod 4 = 0 then 1 else 0)"
    using div_succ [of 4 "y - 1969"] mod_shift(1) [of y] by (simp add: algebra_simps)
  have b: "(y + 1 - 1901) div 100 = (y - 1901) div 100 + (if y mod 100 = 0 then 1 else 0)"
    using div_succ [of 100 "y - 1901"] mod_shift(2) [of y] by (simp add: algebra_simps)
  have c: "(y + 1 - 1601) div 400 = (y - 1601) div 400 + (if y mod 400 = 0 then 1 else 0)"
    using div_succ [of 400 "y - 1601"] mod_shift(3) [of y] by (simp add: algebra_simps)
  show ?thesis
    unfolding DayFromYear_def DaysInYear_def a b c
    using mod_chain [of y] by (auto simp: algebra_simps)
qed

lemma DayFromYear_lower: "1970 \<le> y \<Longrightarrow> 365 * (y - 1970) - 1 \<le> DayFromYear y"
  unfolding DayFromYear_def by linarith

lemma div_bounds: "b * (a div b) \<le> a \<and> a < b * (a div b) + b" if "b > 0" for a b :: int
proof -
  have "a = b * (a div b) + a mod b" by simp
  moreover have "0 \<le> a mod b" "a mod b < b" using that by simp_all
  ultimately show ?thesis by linarith
qed

lemma DaysInYear_cases: "DaysInYear y = 365 \<or> DaysInYear y = 366"
  by (simp add: DaysInYear_def)

lemma DayFromYear_less_nat: "DayFromYear y < DayFromYear (y + 1 + int n)"
proof (induction n)
  case 0
  show ?case
    using DaysInYear_cases [of y] by (auto simp: DayFromYear_step)
next
  case (Suc n)
  have "DayFromYear (y + 1 + int (Suc n)) = DayFromYear ((y + 1 + int n) + 1)"
    by (simp add: algebra_simps)
  also have "\<dots> = DayFromYear (y + 1 + int n) + DaysInYear (y + 1 + int n)"
    by (rule DayFromYear_step)
  finally show ?case
    using Suc DaysInYear_cases [of "y + 1 + int n"] by linarith
qed

lemma DayFromYear_strict_mono: "a < b \<Longrightarrow> DayFromYear a < DayFromYear b"
proof -
  assume "a < b"
  then have "b = a + 1 + int (nat (b - a - 1))" by simp
  then show ?thesis using DayFromYear_less_nat [of a "nat (b - a - 1)"] by simp
qed

lemma DayFromYear_1970: "DayFromYear 1970 = 0"
  by (simp add: DayFromYear_def)

lemma year_search_bounds:
  "d < DayFromYear (y + 1) \<Longrightarrow>
   DayFromYear (year_search y d) \<le> d \<and> d < DayFromYear (year_search y d + 1)"
proof (induction y d rule: year_search.induct)
  case (1 y d)
  show ?case
  proof (cases "DayFromYear y \<le> d")
    case True
    with "1.prems" show ?thesis by (simp add: year_search.simps [of y d])
  next
    case False
    then have "d < DayFromYear (y - 1 + 1)" by simp
    with False "1.IH" have
      "DayFromYear (year_search (y - 1) d) \<le> d \<and> d < DayFromYear (year_search (y - 1) d + 1)"
      by blast
    with False show ?thesis by (simp add: year_search.simps [of y d])
  qed
qed

lemma YearFromTime_bounds:
  "DayFromYear (YearFromTime t) \<le> Day t \<and> Day t < DayFromYear (YearFromTime t + 1)"
proof -
  let ?d = "Day t"
  let ?y0 = "1970 + max 0 (?d div 365 + 1)"
  have "?d < DayFromYear (?y0 + 1)"
  proof (cases "0 \<le> ?d")
    case True
    then have "0 \<le> ?d div 365" by simp
    then have y0: "?y0 + 1 = 1972 + ?d div 365" by simp
    have "365 * (1972 + ?d div 365 - 1970) - 1 \<le> DayFromYear (1972 + ?d div 365)"
      using \<open>0 \<le> ?d div 365\<close> by (intro DayFromYear_lower) simp
    moreover have "?d < 365 * (?d div 365) + 365"
      using div_bounds [of 365 ?d] by simp
    moreover define q where "q = ?d div 365"
    ultimately have "?d < DayFromYear (1972 + q)" by simp
    then show ?thesis unfolding y0 q_def .
  next
    case False
    then have "?d div 365 + 1 \<le> 0" by linarith
    then have y0: "?y0 + 1 = 1971" by simp
    have "DayFromYear 1971 = 365" by (simp add: DayFromYear_def)
    with False show ?thesis unfolding y0 by linarith
  qed
  then show ?thesis unfolding YearFromTime_def by (rule year_search_bounds)
qed

lemma DayWithinYear_range:
  "0 \<le> DayWithinYear t \<and> DayWithinYear t < 365 + InLeapYear t"
proof -
  have "Day t < DayFromYear (YearFromTime t) + DaysInYear (YearFromTime t)"
    using YearFromTime_bounds [of t] by (simp add: DayFromYear_step)
  moreover have "365 + InLeapYear t = DaysInYear (YearFromTime t)"
    using DaysInYear_cases [of "YearFromTime t"] by (auto simp: InLeapYear_def)
  ultimately show ?thesis
    using YearFromTime_bounds [of t] unfolding DayWithinYear_def by linarith
qed

lemma InLeapYear_cases: "InLeapYear t = 0 \<or> InLeapYear t = 1"
  by (simp add: InLeapYear_def)

lemma MonthFromTime_range: "0 \<le> MonthFromTime t \<and> MonthFromTime t \<le> 11"
  by (simp add: MonthFromTime_def Let_def)

lemma DateFromTime_range: "1 \<le> DateFromTime t \<and> DateFromTime t \<le> 31"
  using DayWithinYear_range [of t] InLeapYear_cases [of t]
  unfolding DateFromTime_def MonthFromTime_def Let_def
  by (auto split: if_splits)

lemma digit_0: "digit 0 = CHR ''0''"
  by (simp add: digit_def)

lemma fixed_digits_0: "fixed_digits k 0 = replicate k CHR ''0''"
  by (induction k) (simp_all add: digit_0 replicate_append_same)

lemma length_fixed_digits [simp]: "length (fixed_digits k v) = k"
  by (induction k arbitrary: v) simp_all

lemma decimal_small: "v < 10 \<Longrightarrow> decimal v = [digit v]"
  by (simp add: decimal.simps [of v])

lemma decimal_large: "10 \<le> v \<Longrightarrow> decimal v = decimal (v div 10) @ [digit (v mod 10)]"
  by (simp add: decimal.simps [of v])

lemma padStart_snoc:
  "length xs \<le> k \<Longrightarrow> padStart (Suc k) c (xs @ [d]) = padStart k c xs @ [d]"
  by (simp add: padStart_def)

lemma pad_decimal:
  "0 \<le> v \<Longrightarrow> v < 10 ^ k \<Longrightarrow> 0 < k \<Longrightarrow>
   length (decimal v) \<le> k \<and> padStart k CHR ''0'' (decimal v) = fixed_digits k v"
proof (induction k arbitrary: v)
  case 0
  then show ?case by simp
next
  case (Suc k)
  show ?case
  proof (cases "v < 10")
    case True
    with Suc.prems have "v div 10 = 0" "v mod 10 = v" by simp_all
    with True show ?thesis
      by (simp add: decimal_small padStart_def fixed_digits_0)
  next
    case False
    then have large: "10 \<le> v" by simp
    have k: "0 < k"
    proof (rule ccontr)
      assume "\<not> 0 < k"
      then have "k = 0" by simp
      with Suc.prems large show False by simp
    qed
    have lo: "0 \<le> v div 10" using Suc.prems by simp
    have hi: "v div 10 < 10 ^ k" using Suc.prems by simp
    from Suc.IH [OF lo hi k]
    have len: "length (decimal (v div 10)) \<le> k"
      and pad: "padStart k CHR ''0'' (decimal (v div 10)) = fixed_digits k (v div 10)"
      by simp_all
    show ?thesis
      using len pad by (simp add: decimal_large [OF large] padStart_snoc)
  qed
qed

lemma length_decimal_ge: "10 ^ k \<le> v \<Longrightarrow> k < length (decimal v)"
proof (induction k arbitrary: v)
  case 0
  then show ?case by (cases "v < 10") (simp_all add: decimal_small decimal_large)
next
  case (Suc k)
  have "(10::int) \<le> 10 * 10 ^ k" by simp
  with Suc.prems have large: "10 \<le> v" unfolding power_Suc by linarith
  from Suc.prems have "10 ^ k \<le> v div 10" by simp
  then have "k < length (decimal (v div 10))" by (rule Suc.IH)
  then show ?case by (simp add: decimal_large [OF large])
qed

lemma decimal_four_digits:
  "1000 \<le> v \<Longrightarrow> v < 10000 \<Longrightarrow> decimal v = fixed_digits 4 v"
proof -
  assume lo: "1000 \<le> v" and hi: "v < 10000"
  have "3 < length (decimal v)"
    using length_decimal_ge [of 3 v] lo by simp
  moreover have "length (decimal v) \<le> 4 \<and> padStart 4 CHR ''0'' (decimal v) = fixed_digits 4 v"
    using pad_decimal [of v 4] lo hi by simp
  ultimately show ?thesis by (simp add: padStart_def)
qed

lemma pad_String:
  "0 \<le> v \<Longrightarrow> v < 10 ^ k \<Longrightarrow> 0 < k \<Longrightarrow>
   padStart k CHR ''0'' (js_String (Some v)) = fixed_digits k v"
  using pad_decimal [of v k] by (simp add: js_String_def)

section \<open>Rounding to a double: proofs\<close>

lemma pow2_nonpos: "k \<le> 0 \<Longrightarrow> pow2 k = 1 / 2 ^ nat (- k)"
  by (auto simp: pow2_def)

lemma pow2_nonneg: "0 \<le> k \<Longrightarrow> pow2 k = 2 ^ nat k"
  by (simp add: pow2_def)

lemma round_half_even_ge: "of_int n \<le> r \<Longrightarrow> n \<le> round_half_even r"
proof -
  assume "of_int n \<le> r"
  then have "n \<le> \<lfloor>r\<rfloor>" by (simp add: le_floor_iff)
  moreover have "\<lfloor>r\<rfloor> \<le> round_half_even r"
    by (simp add: round_half_even_def Let_def)
  ultimately show ?thesis by linarith
qed

lemma round_half_even_less: "r < of_int n - 1 / 2 \<Longrightarrow> round_half_even r < n"
proof -
  assume r: "r < of_int n - 1 / 2"
  have fl: "of_int \<lfloor>r\<rfloor> \<le> r" by simp
  with r have "(of_int \<lfloor>r\<rfloor> :: rat) < of_int n" by linarith
  then have less: "\<lfloor>r\<rfloor> < n" by simp
  show ?thesis
  proof (cases "\<lfloor>r\<rfloor> = n - 1")
    case True
    then have "of_int \<lfloor>r\<rfloor> = (of_int n :: rat) - 1" by simp
    with r have "r - of_int \<lfloor>r\<rfloor> < 1 / 2" by linarith
    then have "round_half_even r = \<lfloor>r\<rfloor>"
      by (simp add: round_half_even_def Let_def)
    with less show ?thesis by simp
  next
    case False
    with less have "\<lfloor>r\<rfloor> + 1 < n" by linarith
    moreover have "round_half_even r \<le> \<lfloor>r\<rfloor> + 1"
      by (simp add: round_half_even_def Let_def)
    ultimately show ?thesis by linarith
  qed
qed

lemma round_half_even_of_int [simp]: "round_half_even (of_int n) = n"
  by (simp add: round_half_even_def)

text \<open>The floor of the rounded value is the floor of the exact one when the exact value
  is further than half a unit in the last place below the next integer.\<close>

lemma floor_to_double:
  assumes pos: "0 < q"
    and k: "of_int k \<le> q"
    and e: "exponent q \<le> 52"
    and gap: "1 / 2 < (of_int k + 1 - q) * 2 ^ nat (52 - exponent q)"
  shows "\<lfloor>to_double q\<rfloor> = k"
proof -
  define p where "p = nat (52 - exponent q)"
  define N :: int where "N = 2 ^ p"
  define m where "m = round_half_even (q * of_int N)"
  have N_pos: "0 < N" by (simp add: N_def)
  have u: "pow2 (exponent q - 52) = 1 / of_int N"
    using e by (simp add: pow2_nonpos p_def N_def)
  have td: "to_double q = of_int m / of_int N"
    using pos by (simp add: to_double_def Let_def u m_def)
  have "of_int (k * N) \<le> q * of_int N"
    using k N_pos by simp
  then have lower: "k * N \<le> m"
    unfolding m_def by (rule round_half_even_ge)
  have "q * of_int N < of_int ((k + 1) * N) - 1 / 2"
  proof -
    have "1 / 2 < (of_int k + 1 - q) * of_int N"
      using gap by (simp add: N_def p_def)
    then show ?thesis by (simp add: algebra_simps)
  qed
  then have upper: "m < (k + 1) * N"
    unfolding m_def by (rule round_half_even_less)
  have "(of_int k :: rat) \<le> of_int m / of_int N"
  proof -
    have "(of_int (k * N) :: rat) \<le> of_int m" using lower by (simp only: of_int_le_iff)
    then show ?thesis using N_pos by (simp add: pos_le_divide_eq)
  qed
  moreover have "(of_int m :: rat) / of_int N < of_int k + 1"
  proof -
    have "(of_int m :: rat) < of_int ((k + 1) * N)" using upper by (simp only: of_int_less_iff)
    then show ?thesis using N_pos by (simp add: pos_divide_less_eq)
  qed
  ultimately show ?thesis unfolding td by (rule floor_unique)
qed

lemma exponent_le:
  assumes "0 < q" and "q < 2 ^ Suc n"
  shows "exponent q \<le> int n"
proof (cases "1 \<le> q")
  case True
  have "\<lfloor>q\<rfloor> < 2 ^ Suc n"
  proof -
    have "q < of_int (2 ^ Suc n)" using assms(2) by simp
    then show ?thesis by (simp only: floor_less_iff)
  qed
  then have "bitlen \<lfloor>q\<rfloor> \<le> int (Suc n)"
    by (simp add: bitlen_le_iff_power del: of_nat_Suc)
  with True show ?thesis by (simp add: exponent_def)
next
  case False
  have "0 \<le> bitlen (\<lceil>1 / q\<rceil> - 1)" by (rule bitlen_nonneg)
  with False show ?thesis by (simp add: exponent_def)
qed

lemma js_Number_exact: "\<bar>v\<bar> < 2 ^ 53 \<Longrightarrow> js_Number v = v"
proof (cases "v = 0")
  case True
  then show ?thesis by (simp add: js_Number_def to_double_def)
next
  case False
  assume bound: "\<bar>v\<bar> < 2 ^ 53"
  define a where "a = \<bar>v\<bar>"
  have a_pos: "0 < a" using False by (simp add: a_def)
  have a1: "(1::rat) \<le> of_int a" using a_pos by simp
  have ex: "exponent (of_int a) = bitlen a - 1"
    using a1 by (simp add: exponent_def)
  have "bitlen a \<le> 53"
    using bound by (simp add: bitlen_le_iff_power a_def)
  then have e: "exponent (of_int a) - 52 \<le> 0" using ex by simp
  define N :: int where "N = 2 ^ nat (- (exponent (of_int a) - 52))"
  have u: "pow2 (exponent (of_int a) - 52) = 1 / of_int N"
    using e by (simp add: pow2_nonpos N_def)
  have "\<bar>of_int v :: rat\<bar> = of_int a" by (simp add: a_def)
  then have "to_double (of_int v) = sgn (of_int v) * of_int (round_half_even (of_int a / (1 / of_int N))) * (1 / of_int N)"
    using False by (simp add: to_double_def Let_def u)
  also have "of_int a / (1 / of_int N) = (of_int (a * N) :: rat)" by simp
  also have "round_half_even (of_int (a * N)) = a * N" by (rule round_half_even_of_int)
  also have "sgn (of_int v) * of_int (a * N) * (1 / of_int N) = (of_int (sgn v * a) :: rat)"
    by (simp add: N_def sgn_if)
  also have "sgn v * a = v" by (simp add: a_def sgn_mult_abs)
  finally show ?thesis by (simp add: js_Number_def)
qed

lemma is_double_dvd:
  assumes d: "is_double v" and big: "2 ^ (52 + j) \<le> v"
  shows "2 ^ j dvd v"
proof -
  have "(0::int) < 2 ^ (52 + j)" by simp
  with big have v_pos: "0 < v" by linarith
  then have v1: "(1::rat) \<le> of_int v" by simp
  have ex: "exponent (of_int v) = bitlen v - 1"
    using v1 by (simp add: exponent_def)
  have "int (53 + j) \<le> bitlen v"
    using big by (simp add: bitlen_ge_iff_power del: of_nat_add)
  then have e: "int j \<le> exponent (of_int v) - 52"
    using ex by simp
  define p where "p = nat (exponent (of_int v) - 52)"
  have jp: "j \<le> p" using e by (simp add: p_def)
  have u: "pow2 (exponent (of_int v) - 52) = 2 ^ p"
    using e by (simp add: pow2_nonneg p_def)
  define m where "m = round_half_even (of_int v / 2 ^ p)"
  have "to_double (of_int v) = of_int (m * 2 ^ p)"
    using v_pos by (simp add: to_double_def Let_def u m_def)
  then have "js_Number v = m * 2 ^ p"
    unfolding js_Number_def by (simp only: floor_of_int)
  with d have v: "v = m * 2 ^ p" by (simp add: is_double_def)
  have "(2::int) ^ j dvd 2 ^ p" using jp by (rule le_imp_power_dvd)
  then have "(2::int) ^ j dvd m * 2 ^ p" by (rule dvd_mult)
  with v show ?thesis by simp
qed

lemma magnitude_cases:
  fixes ns :: int
  assumes "0 < ns" and "ns < 2 ^ 63"
  obtains i where "i \<le> 9" and "i = 0 \<or> 2 ^ (52 + i) \<le> ns" and "ns < 2 ^ (53 + i) \<or> (i = 9 \<and> 2 ^ 62 \<le> ns)"
proof -
  define b where "b = nat (bitlen ns)"
  have bl: "0 \<le> bitlen ns" by (rule bitlen_nonneg)
  have nb: "nat (bitlen ns - 1) = b - 1"
    by (simp add: b_def nat_diff_distrib')
  have lo: "2 ^ (b - 1) \<le> ns" and hi: "ns < 2 ^ b"
    using bitlen_bounds [OF assms(1)] unfolding nb by (simp_all add: b_def)
  consider "b \<le> 53" | "53 < b" "b \<le> 62" | "62 < b" by linarith
  then show ?thesis
  proof cases
    case 1
    then have "(2::int) ^ b \<le> 2 ^ 53" by (simp only: power_increasing_iff one_less_numeral_iff semiring_norm)
    with hi have "ns < 2 ^ (53 + 0)" by simp
    then show ?thesis using that [of 0] by simp
  next
    case 2
    define i where "i = b - 53"
    have i: "i \<le> 9" "52 + i = b - 1" "53 + i = b" using 2 by (simp_all add: i_def)
    show ?thesis using that [of i] i lo hi by simp
  next
    case 3
    then have "62 \<le> b - 1" by simp
    then have "(2::int) ^ 62 \<le> 2 ^ (b - 1)" by (simp only: power_increasing_iff one_less_numeral_iff semiring_norm)
    with lo have big: "2 ^ 62 \<le> ns" by linarith
    have "(2::int) ^ (52 + 9) \<le> 2 ^ 62" by simp
    with big have "2 ^ (52 + 9) \<le> ns" by linarith
    then show ?thesis using that [of 9] big by simp
  qed
qed

lemma floor_quotient_exact:
  assumes d: "is_double ns" and nonneg: "0 \<le> ns" and bound: "ns < 2 ^ 33 * 1000000000"
  shows "Math_floor (js_div ns 1000000000) = ns div 1000000000"
proof (cases "ns = 0")
  case True
  then show ?thesis by (simp add: Math_floor_def js_div_def to_double_def)
next
  case False
  with nonneg have pos: "0 < ns" by simp
  define B :: int where "B = 1000000000"
  have B_pos: "0 < B" by (simp add: B_def)
  define q :: rat where "q = of_int ns / of_int B"
  define k where "k = ns div B"
  define r where "r = (k + 1) * B - ns"
  have q_pos: "0 < q" using pos B_pos by (simp add: q_def)
  have "ns < 2 ^ 63" using bound by simp
  with pos obtain i where i: "i \<le> 9"
    and lo: "i = 0 \<or> 2 ^ (52 + i) \<le> ns"
    and hi: "ns < 2 ^ (53 + i) \<or> (i = 9 \<and> 2 ^ 62 \<le> ns)"
    by (rule magnitude_cases)
  have dv_ns: "2 ^ i dvd ns"
    using lo d by (auto intro: is_double_dvd)
  have "(2::int) ^ i dvd 2 ^ 9" using i by (rule le_imp_power_dvd)
  moreover have "(2::int) ^ 9 dvd B" by (simp add: B_def)
  ultimately have dv_B: "2 ^ i dvd B" by (rule dvd_trans)
  have dv_r: "2 ^ i dvd r"
    unfolding r_def using dv_ns dv_B by (simp add: dvd_diff)
  have r_mod: "r = B - ns mod B"
    unfolding r_def k_def using mult_div_mod_eq [of B ns] by (simp add: algebra_simps)
  have r_pos: "0 < r"
    using B_pos unfolding r_mod by (simp add: pos_mod_bound)
  have r_ge: "2 ^ i \<le> r"
    using dv_r r_pos by (rule zdvd_imp_le)
  have ns_lt: "ns < 2 ^ (24 + i) * B"
  proof -
    from hi show ?thesis
    proof
      assume "ns < 2 ^ (53 + i)"
      moreover have "(2::int) ^ (53 + i) = 2 ^ (24 + i) * 2 ^ 29"
        by (simp add: power_add)
      moreover have "(2::int) ^ (24 + i) * 2 ^ 29 \<le> 2 ^ (24 + i) * B"
        by (intro mult_left_mono) (simp_all add: B_def)
      ultimately show ?thesis by linarith
    next
      assume "i = 9 \<and> 2 ^ 62 \<le> ns"
      with bound show ?thesis by (simp add: B_def)
    qed
  qed
  have q_lt: "q < 2 ^ Suc (23 + i)"
  proof -
    have "(of_int ns :: rat) < of_int (2 ^ (24 + i) * B)"
      using ns_lt by (simp only: of_int_less_iff)
    then have "q < 2 ^ (24 + i)"
      using B_pos by (simp add: q_def pos_divide_less_eq)
    then show ?thesis by simp
  qed
  have e: "exponent q \<le> int (23 + i)"
    using q_pos q_lt by (rule exponent_le)
  have e52: "exponent q \<le> 52" using e i by linarith
  have k_le: "of_int k \<le> q"
  proof -
    have "k * B \<le> ns" unfolding k_def using B_pos
      by (metis mult.commute mult_div_mod_eq pos_mod_sign le_add_same_cancel1)
    then have "(of_int (k * B) :: rat) \<le> of_int ns" by (simp only: of_int_le_iff)
    then show ?thesis using B_pos by (simp add: q_def pos_le_divide_eq)
  qed
  have gap_eq: "of_int k + 1 - q = of_int r / of_int B"
    using B_pos by (simp add: q_def r_def field_simps)
  have exp_ge: "29 - i \<le> nat (52 - exponent q)"
    using e i by linarith
  have "(2::int) ^ 29 = 2 ^ i * 2 ^ (29 - i)"
    using i by (simp flip: power_add)
  also have "\<dots> \<le> r * 2 ^ (29 - i)"
    using r_ge by (intro mult_right_mono) simp_all
  also have "\<dots> \<le> r * 2 ^ nat (52 - exponent q)"
    using r_pos exp_ge by (intro mult_left_mono power_increasing) simp_all
  finally have prod: "2 ^ 29 \<le> r * 2 ^ nat (52 - exponent q)" .
  have gap: "1 / 2 < (of_int k + 1 - q) * 2 ^ nat (52 - exponent q)"
  proof -
    have "B < 2 * 2 ^ 29" by (simp add: B_def)
    with prod have "B < 2 * (r * 2 ^ nat (52 - exponent q))" by linarith
    then have "(of_int B :: rat) < of_int (2 * (r * 2 ^ nat (52 - exponent q)))"
      by (simp only: of_int_less_iff)
    then have "(of_int B :: rat) < 2 * (of_int r * 2 ^ nat (52 - exponent q))"
      by simp
    then show ?thesis
      unfolding gap_eq using B_pos by (simp add: field_simps)
  qed
  have "\<lfloor>to_double q\<rfloor> = k"
    using q_pos k_le e52 gap by (rule floor_to_double)
  then show ?thesis
    by (simp add: Math_floor_def js_div_def q_def k_def B_def)
qed

text \<open>From \<open>2\<^sup>5\<^sup>4\<close> on the doubles are at least four apart, and adding one changes nothing.\<close>

lemma round_half_even_below_half:
  "0 \<le> d \<Longrightarrow> d < 1 / 2 \<Longrightarrow> round_half_even (of_int m + d) = m"
proof -
  assume d: "0 \<le> d" "d < 1 / 2"
  have "\<lfloor>of_int m + d\<rfloor> = m"
    using d by (intro floor_unique) simp_all
  then show ?thesis
    using d by (simp add: round_half_even_def Let_def)
qed

lemma js_add_one_absorbed:
  assumes d: "is_double v" and big: "2 ^ 54 \<le> v"
  shows "js_add v 1 = v"
proof -
  have v_pos: "0 < v" using big by simp
  have "(2::int) ^ (52 + 1) \<le> 2 ^ 54" by simp
  with big have "2 ^ (52 + 1) \<le> v" by linarith
  with d have "2 ^ 1 dvd v" by (rule is_double_dvd)
  then have even_v: "even v" by simp
  define w where "w = v + 1"
  have w1: "(1::rat) \<le> of_int w" using v_pos by (simp add: w_def)
  have w_pos: "0 < w" using v_pos by (simp add: w_def)
  have ex: "exponent (of_int w) = bitlen w - 1"
    using w1 by (simp add: exponent_def)
  have "int 55 \<le> bitlen w"
    using big by (simp add: bitlen_ge_iff_power w_def)
  then have e: "2 \<le> exponent (of_int w) - 52" using ex by simp
  define p where "p = nat (exponent (of_int w) - 52)"
  have p2: "2 \<le> p" using e by (simp add: p_def)
  have u: "pow2 (exponent (of_int w) - 52) = 2 ^ p"
    using e by (simp add: pow2_nonneg p_def)
  have bl: "nat (bitlen w - 1) = 52 + p"
    using e ex by (simp add: p_def)
  have "2 ^ (52 + p) \<le> w"
    using bitlen_bounds [OF w_pos] by (simp add: bl)
  moreover have "w \<noteq> 2 ^ (52 + p)"
  proof
    assume "w = 2 ^ (52 + p)"
    then have "even w" by simp
    with even_v show False by (simp add: w_def)
  qed
  ultimately have "2 ^ (52 + p) \<le> v" by (simp add: w_def)
  with d have "2 ^ p dvd v" by (rule is_double_dvd)
  then obtain m where m: "v = 2 ^ p * m" ..
  have frac: "(of_int w :: rat) / 2 ^ p = of_int m + 1 / 2 ^ p"
    by (simp add: w_def m field_simps)
  have "(2::rat) ^ 2 \<le> 2 ^ p"
    using p2 by (intro power_increasing) simp_all
  then have small: "1 / (2::rat) ^ p < 1 / 2"
    by (simp add: field_simps)
  have r: "round_half_even (of_int w / 2 ^ p) = m"
    unfolding frac using small by (intro round_half_even_below_half) simp_all
  have "to_double (of_int w) = of_int (m * 2 ^ p)"
    using w_pos by (simp add: to_double_def Let_def u r)
  then have "js_Number w = m * 2 ^ p"
    unfolding js_Number_def by (simp only: floor_of_int)
  then show ?thesis
    by (simp add: js_add_def w_def m)
qed

text \<open>
  The rounding at values whose doubles are well known: one tenth, one third, the first
  integers that a double cannot hold, and a product and a sum of the size of a timestamp.
\<close>

lemma to_double_examples:
  "to_double (1 / 10) = 3602879701896397 / 2 ^ 55"
  "to_double (1 / 3) = 6004799503160661 / 2 ^ 54"
  "js_add 9007199254740992 1 = 9007199254740992"
  "js_add 9007199254740992 3 = 9007199254740996"
  "js_mul 1700000000001 1000000 = 1700000000000999936"
  "js_add 1700000000000000000 100 = 1700000000000000000"
  by code_simp+

section \<open>The timestamp generator: proofs\<close>

lemma js_rem_nonneg: "0 \<le> a \<Longrightarrow> 0 < b \<Longrightarrow> js_rem a b = a mod b"
  by (cases "a = 0") (simp_all add: js_rem_def)

lemma calendar_day:
  "Day t = DayFromYear (YearFromTime t) + days_before_month (YearFromTime t) (MonthFromTime t + 1)
           + (DateFromTime t - 1)"
proof -
  define m where "m = MonthFromTime t"
  have "0 \<le> m \<and> m \<le> 11"
    unfolding m_def by (rule MonthFromTime_range)
  then consider "m = 0" | "m = 1" | "m = 2" | "m = 3" | "m = 4" | "m = 5" | "m = 6"
    | "m = 7" | "m = 8" | "m = 9" | "m = 10" | "m = 11"
    by atomize_elim presburger
  then have "DayWithinYear t = days_before_month (YearFromTime t) (m + 1) + (DateFromTime t - 1)"
    by cases
      (simp_all add: DateFromTime_def days_before_month_def Let_def InLeapYear_def
        m_def [symmetric])
  then show ?thesis
    by (simp add: DayWithinYear_def m_def)
qed

lemma YearFromTime_range:
  assumes "0 \<le> Day t" and "Day t < 99711"
  shows "1970 \<le> YearFromTime t \<and> YearFromTime t \<le> 2242"
proof -
  have b: "DayFromYear (YearFromTime t) \<le> Day t" "Day t < DayFromYear (YearFromTime t + 1)"
    using YearFromTime_bounds [of t] by simp_all
  have "1970 \<le> YearFromTime t"
  proof (rule ccontr)
    assume "\<not> 1970 \<le> YearFromTime t"
    then have "YearFromTime t + 1 < 1970 \<or> YearFromTime t + 1 = 1970" by linarith
    then have "DayFromYear (YearFromTime t + 1) \<le> DayFromYear 1970"
      using DayFromYear_strict_mono [of "YearFromTime t + 1" 1970] by auto
    with b assms show False by (simp add: DayFromYear_1970)
  qed
  moreover have "YearFromTime t \<le> 2242"
  proof (rule ccontr)
    assume "\<not> YearFromTime t \<le> 2242"
    then have "2243 < YearFromTime t \<or> 2243 = YearFromTime t" by linarith
    then have "DayFromYear 2243 \<le> DayFromYear (YearFromTime t)"
      using DayFromYear_strict_mono [of 2243 "YearFromTime t"] by auto
    moreover have "DayFromYear 2243 = 99711" by (simp add: DayFromYear_def)
    ultimately show False using b assms by linarith
  qed
  ultimately show ?thesis ..
qed

lemma formatTimestamp_fields:
  assumes d: "is_double ns" and nonneg: "0 \<le> ns" and bound: "ns < 2 ^ 33 * 1000000000"
  defines "t \<equiv> 1000 * (ns div 1000000000)"
  shows "formatTimestamp ns =
           rfc3339_nano (YearFromTime t) (MonthFromTime t + 1) (DateFromTime t)
             (HourFromTime t) (MinFromTime t) (SecFromTime t) (ns mod 1000000000)"
    and "1970 \<le> YearFromTime t \<and> YearFromTime t \<le> 2242"
proof -
  define S where "S = ns div 1000000000"
  have S0: "0 \<le> S" using nonneg by (simp add: S_def)
  have S1: "S < 2 ^ 33" using bound by (simp add: S_def)
  have t: "t = S * 1000" by (simp add: t_def S_def)
  have seconds: "Math_floor (js_div ns 1000000000) = S"
    unfolding S_def using d nonneg bound by (rule floor_quotient_exact)
  have nanos: "js_rem ns 1000000000 = ns mod 1000000000"
    using nonneg by (simp add: js_rem_nonneg)
  have ms: "js_mul S 1000 = t"
    unfolding js_mul_def t using S0 S1 by (intro js_Number_exact) simp
  have t0: "0 \<le> t" and t1: "t < 8589934592000" using S0 S1 by (simp_all add: t)
  have date: "new_Date t = Some t"
    using t0 t1 by (simp add: new_Date_def)
  have day: "0 \<le> Day t" "Day t < 99711"
    using t0 t1 by (simp_all add: Day_def msPerDay_def)
  have yr: "1970 \<le> YearFromTime t \<and> YearFromTime t \<le> 2242"
    using day by (rule YearFromTime_range)
  have year: "js_String (Some (YearFromTime t)) = fixed_digits 4 (YearFromTime t)"
    using yr by (simp add: js_String_def decimal_four_digits)
  have month: "padStart 2 CHR ''0'' (js_String (Some (MonthFromTime t + 1)))
                 = fixed_digits 2 (MonthFromTime t + 1)"
    using MonthFromTime_range [of t] by (intro pad_String) simp_all
  have dom: "padStart 2 CHR ''0'' (js_String (Some (DateFromTime t))) = fixed_digits 2 (DateFromTime t)"
    using DateFromTime_range [of t] by (intro pad_String) simp_all
  have hours: "padStart 2 CHR ''0'' (js_String (Some (HourFromTime t))) = fixed_digits 2 (HourFromTime t)"
    by (intro pad_String) (simp_all add: HourFromTime_def)
  have minutes: "padStart 2 CHR ''0'' (js_String (Some (MinFromTime t))) = fixed_digits 2 (MinFromTime t)"
    by (intro pad_String) (simp_all add: MinFromTime_def)
  have secs: "padStart 2 CHR ''0'' (js_String (Some (SecFromTime t))) = fixed_digits 2 (SecFromTime t)"
    by (intro pad_String) (simp_all add: SecFromTime_def)
  have nanosStr: "padStart 9 CHR ''0'' (js_String (Some (ns mod 1000000000)))
                    = fixed_digits 9 (ns mod 1000000000)"
    by (intro pad_String) simp_all
  show "formatTimestamp ns =
           rfc3339_nano (YearFromTime t) (MonthFromTime t + 1) (DateFromTime t)
             (HourFromTime t) (MinFromTime t) (SecFromTime t) (ns mod 1000000000)"
    unfolding formatTimestamp_def Let_def seconds nanos ms date rfc3339_nano_def
      getUTCFullYear_def getUTCMonth_def getUTCDate_def getUTCHours_def getUTCMinutes_def
      getUTCSeconds_def option.map year month dom hours minutes secs nanosStr
    by (rule refl)
  show "1970 \<le> YearFromTime t \<and> YearFromTime t \<le> 2242" by (rule yr)
qed

lemma scaled_div: "(1000 * S) div (1000 * b) = S div b" for S b :: int
  by (rule div_mult_mult1) simp

text \<open>
  Claim C8, as amended. For every nonnegative nanosecond count \<open>ns\<close> that a number can
  hold and that is below \<open>2\<^sup>3\<^sup>3 \<times> 10\<^sup>9\<close> (before 2242-03-16T12:56:32Z), with
  \<open>S = \<lfloor>ns / 10\<^sup>9\<rfloor>\<close>: the result has the shape \<open>YYYY-MM-DDTHH:MM:SS.NNNNNNNNNZ\<close> and 30
  characters; its year, month and day are the UTC calendar date of day \<open>S div 86400\<close>
  since the epoch (the year has four digits, month and day two, zero-padded); hour, minute
  and second are \<open>S div 3600 mod 24\<close>, \<open>S div 60 mod 60\<close> and \<open>S mod 60\<close> in two digits;
  the fraction is \<open>ns mod 10\<^sup>9\<close> in exactly nine digits; the last character is \<open>Z\<close>.
\<close>

theorem formatTimestamp_rfc3339:
  assumes "is_double ns" and "0 \<le> ns" and "ns < 2 ^ 33 * 1000000000"
  shows "let S = ns div 1000000000; t = 1000 * S;
             Y = YearFromTime t; M = MonthFromTime t + 1; D = DateFromTime t
         in formatTimestamp ns =
              rfc3339_nano Y M D (S div 3600 mod 24) (S div 60 mod 60) (S mod 60) (ns mod 1000000000)
            \<and> length (formatTimestamp ns) = 30
            \<and> 1970 \<le> Y \<and> Y \<le> 2242 \<and> 1 \<le> M \<and> M \<le> 12 \<and> 1 \<le> D \<and> D \<le> 31
            \<and> S div 86400 = DayFromYear Y + days_before_month Y M + (D - 1)"
proof -
  define S where "S = ns div 1000000000"
  define t where "t = 1000 * S"
  have fmt: "formatTimestamp ns =
           rfc3339_nano (YearFromTime t) (MonthFromTime t + 1) (DateFromTime t)
             (HourFromTime t) (MinFromTime t) (SecFromTime t) (ns mod 1000000000)"
    and yr: "1970 \<le> YearFromTime t \<and> YearFromTime t \<le> 2242"
    using formatTimestamp_fields [OF assms] by (simp_all add: t_def S_def)
  have h: "HourFromTime t = S div 3600 mod 24"
    using scaled_div [of S 3600] by (simp add: HourFromTime_def t_def)
  have m: "MinFromTime t = S div 60 mod 60"
    using scaled_div [of S 60] by (simp add: MinFromTime_def t_def)
  have s: "SecFromTime t = S mod 60"
    by (simp add: SecFromTime_def t_def)
  have d: "Day t = S div 86400"
    using scaled_div [of S 86400] by (simp add: Day_def msPerDay_def t_def)
  have len: "length (formatTimestamp ns) = 30"
    unfolding fmt by (simp add: rfc3339_nano_def)
  have cal: "S div 86400 = DayFromYear (YearFromTime t)
        + days_before_month (YearFromTime t) (MonthFromTime t + 1) + (DateFromTime t - 1)"
    using calendar_day [of t] by (simp add: d)
  have mo: "1 \<le> MonthFromTime t + 1" "MonthFromTime t + 1 \<le> 12"
    using MonthFromTime_range [of t] by simp_all
  have da: "1 \<le> DateFromTime t" "DateFromTime t \<le> 31"
    using DateFromTime_range [of t] by simp_all
  from yr have y1: "1970 \<le> YearFromTime t" and y2: "YearFromTime t \<le> 2242"
    by simp_all
  show ?thesis
    unfolding Let_def S_def [symmetric] t_def [symmetric]
    by (intro conjI fmt [unfolded h m s] len y1 y2 mo da cal)
qed

text \<open>
  Claim C8, the amended statement at \<open>ns = 1700000000000000000\<close>.
\<close>

theorem formatTimestamp_rfc3339_witness:
  "is_double 1700000000000000000 \<and> (0::int) \<le> 1700000000000000000
   \<and> (1700000000000000000::int) < 2 ^ 33 * 1000000000
   \<and> formatTimestamp 1700000000000000000 = ''2023-11-14T22:13:20.000000000Z''"
proof -
  have d: "is_double 1700000000000000000" by code_simp
  have b: "(0::int) \<le> 1700000000000000000" "(1700000000000000000::int) < 2 ^ 33 * 1000000000"
    by simp_all
  have e: "(let S = 1700000000000000000 div 1000000000; t = 1000 * S;
             Y = YearFromTime t; M = MonthFromTime t + 1; D = DateFromTime t
         in rfc3339_nano Y M D (S div 3600 mod 24) (S div 60 mod 60) (S mod 60)
              (1700000000000000000 mod 1000000000)) = ''2023-11-14T22:13:20.000000000Z''"
    by code_simp
  from formatTimestamp_rfc3339 [OF d b]
  have "formatTimestamp 1700000000000000000 =
     (let S = 1700000000000000000 div 1000000000; t = 1000 * S;
             Y = YearFromTime t; M = MonthFromTime t + 1; D = DateFromTime t
         in rfc3339_nano Y M D (S div 3600 mod 24) (S div 60 mod 60) (S mod 60)
              (1700000000000000000 mod 1000000000))"
    by (simp only: Let_def)
  with e d b show ?thesis by simp
qed

text \<open>
  Claim C8 as stated fails. The number 8589934592999999488 holds a nonnegative count
  whose quotient by \<open>10\<^sup>9\<close> rounds up to 8589934593: the seconds printed are 33 although
  \<open>\<lfloor>ns / 10\<^sup>9\<rfloor> = 8589934592\<close> has 32 seconds, next to the fraction 999999488. At
  \<open>ns = 10\<^sup>2\<^sup>2\<close> the date is invalid and every calendar field prints as \<open>NaN\<close>.
\<close>

theorem formatTimestamp_second_off:
  "is_double 8589934592999999488
   \<and> formatTimestamp 8589934592999999488 = ''2242-03-16T12:56:33.999999488Z''
   \<and> (8589934592999999488::int) div 1000000000 = 8589934592
   \<and> (8589934592::int) mod 60 = 32
   \<and> formatTimestamp 8589934592999999488 \<noteq>
        (let S = 8589934592999999488 div 1000000000; t = 1000 * S
         in rfc3339_nano (YearFromTime t) (MonthFromTime t + 1) (DateFromTime t)
              (S div 3600 mod 24) (S div 60 mod 60) (S mod 60)
              (8589934592999999488 mod 1000000000))
   \<and> is_double 10000000000000000000000
   \<and> formatTimestamp 10000000000000000000000 = ''NaN-NaN-NaNTNaN:NaN:NaN.000000000Z''"
  by code_simp

text \<open>
  What holds of the generator. Below \<open>2\<^sup>5\<^sup>3\<close> the increment is exact and each call emits
  more than the call before. From \<open>2\<^sup>5\<^sup>4\<close> on (every wall-clock time after July 1970, in
  nanoseconds) a call whose candidate does not exceed the last value emits that value
  again. The baseline is captured by the first call and kept, and a candidate that
  exceeds the last value is emitted as the rounded sum of the rounded baseline and the
  elapsed time.
\<close>

lemma js_add_one_exact: "0 \<le> n \<Longrightarrow> n + 1 < 2 ^ 53 \<Longrightarrow> js_add n 1 = n + 1"
  unfolding js_add_def by (rule js_Number_exact) simp

lemma next_hrtime_increases:
  "0 \<le> lastNs \<Longrightarrow> lastNs + 1 < 2 ^ 53 \<Longrightarrow> lastNs < next_hrtime currentNs lastNs"
  by (simp add: next_hrtime_def Let_def js_add_one_exact)

lemma next_state_increases:
  "0 \<le> lastTimestampNs st \<Longrightarrow> lastTimestampNs st + 1 < 2 ^ 53 \<Longrightarrow>
   lastTimestampNs st < lastTimestampNs (next_state clk st)"
  by (cases "baselineHrtimeNs st")
    (simp_all add: next_state_def capture_baseline_def Let_def js_add_one_exact)

lemma next_state_baseline:
  "baselineHrtimeNs (next_state clk st) =
     Some (case baselineHrtimeNs st of None \<Rightarrow> hrtime_baseline clk | Some b \<Rightarrow> b)"
  "baselineWallClockMs (next_state clk st) =
     (case baselineHrtimeNs st of None \<Rightarrow> Date_now clk | Some b \<Rightarrow> baselineWallClockMs st)"
  by (cases "baselineHrtimeNs st"; simp add: next_state_def capture_baseline_def Let_def)+

lemma next_state_emits_candidate:
  assumes "baselineHrtimeNs st = Some b"
    and "lastTimestampNs st < currentNsNumber (baselineWallClockMs st) b (hrtime_current clk)"
  shows "lastTimestampNs (next_state clk st)
           = js_add (js_mul (baselineWallClockMs st) 1000000) (js_Number (hrtime_current clk - b))"
  using assms by (simp add: next_state_def capture_baseline_def Let_def currentNsNumber_def)

lemma next_hrtime_repeats:
  "is_double lastNs \<Longrightarrow> 2 ^ 54 \<le> lastNs \<Longrightarrow> js_Number currentNs \<le> lastNs \<Longrightarrow>
   next_hrtime currentNs lastNs = lastNs"
  by (simp add: next_hrtime_def Let_def js_add_one_absorbed)

lemma next_state_repeats:
  assumes "baselineHrtimeNs st = Some b"
    and "is_double (lastTimestampNs st)" and "2 ^ 54 \<le> lastTimestampNs st"
    and "currentNsNumber (baselineWallClockMs st) b (hrtime_current clk) \<le> lastTimestampNs st"
  shows "lastTimestampNs (next_state clk st) = lastTimestampNs st"
  using assms by (simp add: next_state_def capture_baseline_def Let_def js_add_one_absorbed)

text \<open>
  Claim C1, at two calls 100 ns apart with \<open>Date.now() = 1700000000000\<close>: the candidate of
  the second call rounds to the value already emitted, and so does \<open>lastTimestampNs + 1\<close>:
  both calls emit 1700000000000000000. In the revision without a baseline the same
  happens at the reading \<open>2\<^sup>5\<^sup>3\<close> taken twice.
\<close>

theorem timestamps_repeat:
  "emitted [\<lparr>Date_now = 1700000000000, hrtime_baseline = 5000, hrtime_current = 5000\<rparr>,
            \<lparr>Date_now = 1700000000000, hrtime_baseline = 5100, hrtime_current = 5100\<rparr>]
     initial_state = [1700000000000000000, 1700000000000000000]
   \<and> fst (generateUniqueTimestamp
          \<lparr>Date_now = 1700000000000, hrtime_baseline = 5100, hrtime_current = 5100\<rparr>
          (snd (generateUniqueTimestamp
             \<lparr>Date_now = 1700000000000, hrtime_baseline = 5000, hrtime_current = 5000\<rparr>
             initial_state)))
       = fst (generateUniqueTimestamp
          \<lparr>Date_now = 1700000000000, hrtime_baseline = 5000, hrtime_current = 5000\<rparr>
          initial_state)
   \<and> emitted_hrtime [9007199254740992, 9007199254740992] 0
       = [9007199254740992, 9007199254740992]
   \<and> fst (generateUniqueTimestamp_hrtime 9007199254740992
          (snd (generateUniqueTimestamp_hrtime 9007199254740992 0)))
       = fst (generateUniqueTimestamp_hrtime 9007199254740992 0)"
  by code_simp

text \<open>
  Claim C6, at the first call with \<open>Date.now() = 1700000000000\<close> and 100 ns between the
  baseline reading and the current reading of the monotonic clock: the candidate exceeds
  the last emitted value 0, and the emitted value is 1700000000000000000, not the baseline
  plus the elapsed time 1700000000000000100. The revision without a baseline emits the
  reading of the monotonic clock itself.
\<close>

theorem candidate_not_baseline_plus_elapsed:
  "lastTimestampNs initial_state < currentNsNumber 1700000000000 5000 5100
   \<and> lastTimestampNs (next_state \<lparr>Date_now = 1700000000000, hrtime_baseline = 5000,
                                  hrtime_current = 5100\<rparr> initial_state)
       = 1700000000000000000
   \<and> lastTimestampNs (next_state \<lparr>Date_now = 1700000000000, hrtime_baseline = 5000,
                                  hrtime_current = 5100\<rparr> initial_state)
       \<noteq> 1700000000000 * 1000000 + (5100 - 5000)
   \<and> next_hrtime 5100 0 = 5100"
  by code_simp

end
